theory Spec2Isabelle
  imports Main "HOL-Library.Word" "HOL-Library.Stream"
begin

unbundle bit_operations_syntax

section \<open>Go values: bytes, runes and strings\<close>

text \<open>
  A Go \<open>string\<close> is a sequence of bytes; a \<open>rune\<close> is an \<open>int32\<close>. The unsigned reading
  \<open>uint32(r)\<close> of a rune is the word itself, the signed reading is \<open>sint r\<close>.
\<close>

type_synonym byte = "8 word"
type_synonym rune = "32 word"
type_synonym gostring = "byte list"

text \<open>The constants of Go's UTF-8 code (\<open>unicode/utf8\<close> and \<open>runtime/utf8.go\<close>).\<close>

abbreviation runeError :: rune where "runeError \<equiv> 0xFFFD"
abbreviation runeSelf :: byte where "runeSelf \<equiv> 0x80"
abbreviation maxRune :: rune where "maxRune \<equiv> 0x10FFFF"
abbreviation surrogateMin :: rune where "surrogateMin \<equiv> 0xD800"
abbreviation surrogateMax :: rune where "surrogateMax \<equiv> 0xDFFF"
abbreviation tx :: byte where "tx \<equiv> 0x80"
abbreviation t2 :: byte where "t2 \<equiv> 0xC0"
abbreviation t3 :: byte where "t3 \<equiv> 0xE0"
abbreviation t4 :: byte where "t4 \<equiv> 0xF0"
abbreviation t5 :: byte where "t5 \<equiv> 0xF8"
abbreviation maskx :: byte where "maskx \<equiv> 0x3F"
abbreviation mask2 :: byte where "mask2 \<equiv> 0x1F"
abbreviation mask3 :: byte where "mask3 \<equiv> 0x0F"
abbreviation mask4 :: byte where "mask4 \<equiv> 0x07"
abbreviation rune1Max :: rune where "rune1Max \<equiv> 0x7F"
abbreviation rune2Max :: rune where "rune2Max \<equiv> 0x7FF"
abbreviation rune3Max :: rune where "rune3Max \<equiv> 0xFFFF"
abbreviation locb :: byte where "locb \<equiv> 0x80"
abbreviation hicb :: byte where "hicb \<equiv> 0xBF"

text \<open>The delimiter \<open>'-'\<close>, as a byte of a string and as a rune.\<close>

abbreviation dash :: byte where "dash \<equiv> 0x2D"
abbreviation dashRune :: rune where "dashRune \<equiv> 0x2D"

subsection \<open>Writing a rune: \<open>strings.Builder.WriteRune\<close>\<close>

text \<open>
  \<open>WriteRune\<close> appends \<open>utf8.AppendRune(buf, r)\<close>. The comparisons are on \<open>uint32(r)\<close>;
  a rune above \<open>MaxRune\<close> or in the surrogate range is replaced by \<open>RuneError\<close> and falls
  through to the three-byte case. \<open>byte(x)\<close> keeps the low eight bits (\<open>ucast\<close>); Go's
  \<open>&\<close> binds tighter than \<open>|\<close>. The shifts \<open>r>>k\<close> are on the signed rune.
\<close>

definition encodeRune :: "rune \<Rightarrow> gostring" where
  "encodeRune r =
     (if r \<le> rune1Max then [ucast r]
      else if r \<le> rune2Max then
        [t2 OR ucast (signed_drop_bit 6 r), tx OR (ucast r AND maskx)]
      else
        (let r' = (if r > maxRune \<or> (surrogateMin \<le> r \<and> r \<le> surrogateMax)
                   then runeError else r)
         in if r > maxRune \<or> (surrogateMin \<le> r \<and> r \<le> surrogateMax) \<or> r \<le> rune3Max then
              [t3 OR ucast (signed_drop_bit 12 r'),
               tx OR (ucast (signed_drop_bit 6 r') AND maskx),
               tx OR (ucast r' AND maskx)]
            else
              [t4 OR ucast (signed_drop_bit 18 r'),
               tx OR (ucast (signed_drop_bit 12 r') AND maskx),
               tx OR (ucast (signed_drop_bit 6 r') AND maskx),
               tx OR (ucast r' AND maskx)]))"

subsection \<open>Reading runes: the conversion \<open>[]rune(s)\<close>\<close>

text \<open>
  \<open>decoderune\<close> of the Go runtime, applied to the rest \<open>s[k:]\<close> of the string: it returns
  the rune and the number of bytes it takes. Every ill-formed, over-long, surrogate or
  out-of-range sequence gives \<open>(RuneError, 1)\<close>. The runes are compared as signed values.
\<close>

definition cont :: "byte \<Rightarrow> bool" where
  "cont b \<longleftrightarrow> locb \<le> b \<and> b \<le> hicb"

definition decoderune :: "gostring \<Rightarrow> rune \<times> nat" where
  "decoderune s =
     (if s = [] then (runeError, 1)
      else if t2 \<le> s ! 0 \<and> s ! 0 < t3 then
        (if length s > 1 \<and> cont (s ! 1) then
           (let r = push_bit 6 (ucast (s ! 0 AND mask2)) OR ucast (s ! 1 AND maskx)
            in if rune1Max <s r then (r, 2) else (runeError, 1))
         else (runeError, 1))
      else if t3 \<le> s ! 0 \<and> s ! 0 < t4 then
        (if length s > 2 \<and> cont (s ! 1) \<and> cont (s ! 2) then
           (let r = (push_bit 12 (ucast (s ! 0 AND mask3)) OR push_bit 6 (ucast (s ! 1 AND maskx)))
                    OR ucast (s ! 2 AND maskx)
            in if rune2Max <s r \<and> \<not> (surrogateMin \<le>s r \<and> r \<le>s surrogateMax)
               then (r, 3) else (runeError, 1))
         else (runeError, 1))
      else if t4 \<le> s ! 0 \<and> s ! 0 < t5 then
        (if length s > 3 \<and> cont (s ! 1) \<and> cont (s ! 2) \<and> cont (s ! 3) then
           (let r = ((push_bit 18 (ucast (s ! 0 AND mask4)) OR push_bit 12 (ucast (s ! 1 AND maskx)))
                     OR push_bit 6 (ucast (s ! 2 AND maskx))) OR ucast (s ! 3 AND maskx)
            in if rune3Max <s r \<and> r \<le>s maxRune then (r, 4) else (runeError, 1))
         else (runeError, 1))
      else (runeError, 1))"

lemma decoderune_width: "snd (decoderune s) \<in> {1, 2, 3, 4}"
  by (simp add: decoderune_def Let_def)

text \<open>
  \<open>for _, r := range s\<close>: a byte below \<open>RuneSelf\<close> is its own rune, anything else goes
  through \<open>decoderune\<close>; \<open>[]rune(s)\<close> collects the runes of that loop.
\<close>

function runes :: "gostring \<Rightarrow> rune list" where
  "runes [] = []"
| "runes (c # cs) =
     (if c < runeSelf then ucast c # runes cs
      else fst (decoderune (c # cs)) # runes (drop (snd (decoderune (c # cs))) (c # cs)))"
  by pat_completeness auto
termination
proof (relation "measure length")
  show "wf (measure length)" by simp
next
  fix c :: byte and cs :: gostring
  show "(cs, c # cs) \<in> measure length" by simp
next
  fix c :: byte and cs :: gostring
  have "snd (decoderune (c # cs)) \<in> {1, 2, 3, 4}" by (rule decoderune_width)
  then have "0 < snd (decoderune (c # cs))" by auto
  then show "(drop (snd (decoderune (c # cs))) (c # cs), c # cs) \<in> measure length"
    by simp
qed

subsection \<open>\<open>strings.Split(s, "-")\<close>\<close>

text \<open>
  \<open>strings.Split\<close> with a one-byte separator: as long as \<open>Index(s, sep)\<close> finds a
  separator at \<open>m\<close>, the part \<open>s[:m]\<close> is stored and the loop goes on with \<open>s[m+1:]\<close>; the
  rest is the last part. The result always has at least one part.
\<close>

function Split :: "gostring \<Rightarrow> gostring list" where
  "Split s =
     (if dash \<in> set s
      then takeWhile (\<lambda>b. b \<noteq> dash) s # Split (drop (Suc (length (takeWhile (\<lambda>b. b \<noteq> dash) s))) s)
      else [s])"
  by pat_completeness auto
termination
proof (relation "measure length")
  show "wf (measure length)" by simp
next
  fix s :: gostring
  assume "dash \<in> set s"
  then have "0 < length s" by (cases s) auto
  then show "(drop (Suc (length (takeWhile (\<lambda>b. b \<noteq> dash) s))) s, s) \<in> measure length"
    by simp
qed

declare Split.simps [simp del]

section \<open>Identifiers and errors\<close>

text \<open>
  \<open>type EmojiID struct { tokens [32]rune }\<close>. The array is a list here; every identifier
  the package builds has exactly 32 tokens (\<open>wf_id\<close>). \<open>EmojiID{}\<close> is the zero value.
\<close>

record EmojiID =
  tokens :: "rune list"

definition wf_id :: "EmojiID \<Rightarrow> bool" where
  "wf_id e \<longleftrightarrow> length (tokens e) = 32"

definition zeroID :: EmojiID where
  "zeroID = \<lparr>tokens = replicate 32 0\<rparr>"

text \<open>
  The four errors of the package. \<open>ErrInvalidToken u\<close> is the error
  \<open>fmt.Errorf("%w: %q", ErrInvalidToken, string(tokens[i]))\<close>, which wraps
  \<open>ErrInvalidToken\<close> and carries the offending unit \<open>u = string(tokens[i])\<close>.
  \<open>RuntimePanic\<close> stands for a run-time panic of the Go program (an integer division by
  zero, an index out of range); nothing in the package recovers from it, so it leaves every
  caller the way an error does.
\<close>

datatype error =
    ErrInvalidFormat
  | ErrInvalidToken gostring
  | ErrEntropyFailure
  | ErrAlphabetTooSmall
  | RuntimePanic

text \<open>A Go result \<open>(x, err)\<close>: \<open>None\<close> is \<open>nil\<close>.\<close>

type_synonym 'a result = "'a \<times> error option"

definition DefaultAlphabet :: "rune list" where
  "DefaultAlphabet = [
      0x1F600, 0x1F603, 0x1F604, 0x1F601, 0x1F606, 0x1F605, 0x1F602, 0x1F923,
      0x1F60A, 0x1F607, 0x1F642, 0x1F643, 0x1F609, 0x1F60C, 0x1F60D, 0x1F970,
      0x1F618, 0x1F617, 0x1F619, 0x1F61A, 0x1F60B, 0x1F61B, 0x1F61D, 0x1F61C,
      0x1F92A, 0x1F928, 0x1F9D0, 0x1F913, 0x1F60E, 0x1F973, 0x1F624, 0x1F621,
      0x1F92F, 0x1F631, 0x1F634, 0x1F924, 0x1F637, 0x1F912, 0x1F915, 0x1F920,
      0x1F608, 0x1F47B, 0x1F916, 0x1F383, 0x1F436, 0x1F431, 0x1F42D, 0x1F439,
      0x1F430, 0x1F98A, 0x1F43B, 0x1F43C, 0x1F428, 0x1F42F, 0x1F981, 0x1F438,
      0x1F435, 0x1F414, 0x1F427, 0x1F426, 0x1F424, 0x1F419, 0x1F991, 0x1F980,
      0x1F420, 0x1F433, 0x1F98B, 0x1F41E, 0x1F338, 0x1F33C, 0x1F33B, 0x1F33A,
      0x1F34E, 0x1F34A, 0x1F34B, 0x1F349, 0x1F347, 0x1F353, 0x1F352, 0x1F34D,
      0x1F951, 0x1F966, 0x1F955, 0x1F336, 0x1F354, 0x1F35F, 0x1F355, 0x1F32E,
      0x1F363, 0x1F369, 0x1F36A, 0x1F36B, 0x1F37F, 0x2615, 0x1F37A, 0x1F377,
      0x26BD, 0x1F3C0, 0x1F3C8, 0x26BE, 0x1F3BE, 0x1F3D0, 0x1F3B1, 0x1F3D3,
      0x1F3B8, 0x1F3B9, 0x1F941, 0x1F3BB, 0x1F3A7, 0x1F3AE, 0x1F9E9, 0x1F3B2,
      0x1F697, 0x1F695, 0x1F68C, 0x1F691, 0x1F692, 0x1F69C, 0x2708, 0x1F680,
      0x1F6F0, 0x26F5, 0x1F6B2, 0x1F6F4, 0x1F3E0, 0x1F3E2, 0x1F3ED, 0x1F3F0,
      0x1F30D, 0x1F319, 0x2B50, 0x26A1, 0x1F525, 0x1F4A7, 0x1F308, 0x2744,
      0x1F48E, 0x1F512, 0x1F511, 0x1F9E0, 0x1F4A1, 0x1F4E6, 0x1F9F2, 0x1F9F0,
      0x1F6E1, 0x2699, 0x1F9EA, 0x1F9EC, 0x1F52D, 0x1F4E1, 0x1F4BE, 0x1F5C4]"

section \<open>The codec\<close>

subsection \<open>\<open>EmojiID.String\<close>\<close>

text \<open>\<open>writeRunes(from, to)\<close> writes \<open>e.tokens[i]\<close> for \<open>from \<le> i < to\<close> to the builder \<open>b\<close>.\<close>

definition writeRunes :: "EmojiID \<Rightarrow> nat \<Rightarrow> nat \<Rightarrow> gostring \<Rightarrow> gostring" where
  "writeRunes e from to b = foldl (\<lambda>b i. b @ encodeRune (tokens e ! i)) b [from..<to]"

definition String :: "EmojiID \<Rightarrow> gostring" where
  "String e =
     (let b = [];
          b = writeRunes e 0 8 b;
          b = b @ [dash];
          b = writeRunes e 8 12 b;
          b = b @ [dash];
          b = writeRunes e 12 16 b;
          b = b @ [dash];
          b = writeRunes e 16 20 b;
          b = b @ [dash];
          b = writeRunes e 20 32 b
      in b)"

definition Equal :: "EmojiID \<Rightarrow> EmojiID \<Rightarrow> bool" where
  "Equal e other \<longleftrightarrow> tokens e = tokens other"

definition IsZero :: "EmojiID \<Rightarrow> bool" where
  "IsZero e \<longleftrightarrow> tokens e = tokens zeroID"

subsection \<open>\<open>ParseWithAlphabet\<close>\<close>

definition want :: "nat list" where
  "want = [8, 4, 4, 4, 12]"

text \<open>
  The loop over the parts: \<open>r := []rune(p)\<close>; a part whose length is not \<open>want[i]\<close> ends
  the parse (\<open>None\<close>), otherwise its runes are appended to \<open>tokens\<close>.
\<close>

fun collectParts :: "gostring list \<Rightarrow> nat \<Rightarrow> rune list \<Rightarrow> rune list option" where
  "collectParts [] i toks = Some toks"
| "collectParts (p # ps) i toks =
     (let r = runes p
      in if length r \<noteq> want ! i then None
         else collectParts ps (i + 1) (toks @ r))"

text \<open>The set \<open>allowed\<close>, a \<open>map[rune]struct{}\<close> filled from the alphabet.\<close>

definition allowed_of :: "rune list \<Rightarrow> (rune \<rightharpoonup> unit)" where
  "allowed_of alphabet = foldl (\<lambda>m r. m(r \<mapsto> ())) Map.empty alphabet"

text \<open>The membership loop, \<open>for i := 0; i < 32; i++\<close>, filling \<open>id.tokens\<close>.\<close>

function checkTokens :: "(rune \<rightharpoonup> unit) \<Rightarrow> rune list \<Rightarrow> nat \<Rightarrow> EmojiID \<Rightarrow> EmojiID result" where
  "checkTokens allowed toks i eid =
     (if i < 32 then
        (if allowed (toks ! i) = None
         then (zeroID, Some (ErrInvalidToken (encodeRune (toks ! i))))
         else checkTokens allowed toks (i + 1) (eid\<lparr>tokens := (tokens eid)[i := toks ! i]\<rparr>))
      else (eid, None))"
  by pat_completeness auto
termination
  by (relation "measure (\<lambda>(allowed, toks, i, eid). 32 - i)") auto

declare checkTokens.simps [simp del]

definition ParseWithAlphabet :: "gostring \<Rightarrow> rune list \<Rightarrow> EmojiID result" where
  "ParseWithAlphabet s alphabet =
     (if length alphabet < 2 then (zeroID, Some ErrAlphabetTooSmall)
      else
        (let parts = Split s
         in if length parts \<noteq> 5 then (zeroID, Some ErrInvalidFormat)
            else
              (case collectParts parts 0 [] of
                 None \<Rightarrow> (zeroID, Some ErrInvalidFormat)
               | Some toks \<Rightarrow>
                   if length toks \<noteq> 32 then (zeroID, Some ErrInvalidFormat)
                   else checkTokens (allowed_of alphabet) toks 0 zeroID)))"

definition Parse :: "gostring \<Rightarrow> EmojiID result" where
  "Parse s = ParseWithAlphabet s DefaultAlphabet"

definition Validate :: "gostring \<Rightarrow> bool" where
  "Validate s \<longleftrightarrow> snd (Parse s) = None"

section \<open>The sampler\<close>

text \<open>
  The secure random source, as seen by \<open>rand.Read(buf[:])\<close> with a two-byte buffer: the
  stream of the outcomes of the successive reads. A read fails, or fills \<open>buf[0]\<close> and
  \<open>buf[1]\<close>.
\<close>

datatype rand_read = ReadFail | ReadBytes byte byte

type_synonym entropy = "rand_read stream"

text \<open>
  The \<open>for { ... }\<close> loop of \<open>cryptoRandIndex\<close>, with \<open>un = uint32(n)\<close>. It has no
  iteration cap: where it never returns, the value is \<open>None\<close>. A result comes with the
  rest of the entropy stream.
\<close>

partial_function (option) randLoop ::
    "32 word \<Rightarrow> 32 word \<Rightarrow> entropy \<Rightarrow> (int result \<times> entropy) option" where
  "randLoop un limit src =
     (case shd src of
        ReadFail \<Rightarrow> Some ((0, Some ErrEntropyFailure), stl src)
      | ReadBytes b0 b1 \<Rightarrow>
          (let v = push_bit 8 (ucast b0) OR ucast b1
           in if v < limit then Some ((uint (v mod un), None), stl src)
              else randLoop un limit (stl src)))"

text \<open>
  \<open>cryptoRandIndex(n int)\<close>. \<open>uint32(n)\<close> keeps the low 32 bits of \<open>n\<close>; \<open>max % 0\<close>
  panics.
\<close>

definition cryptoRandIndex :: "int \<Rightarrow> entropy \<Rightarrow> (int result \<times> entropy) option" where
  "cryptoRandIndex n src =
     (if n \<le> 0 then Some ((0, Some ErrAlphabetTooSmall), src)
      else
        (let max = (65536 :: 32 word);
             un = (word_of_int n :: 32 word)
         in if un = 0 then Some ((0, Some RuntimePanic), src)
            else randLoop un (max - max mod un) src))"

text \<open>
  The loop \<open>for i := 0; i < len(id.tokens); i++\<close> of \<open>NewWithAlphabet\<close>. The read
  \<open>alphabet[idx]\<close> panics when \<open>idx\<close> is out of range.
\<close>

function fillTokens ::
    "rune list \<Rightarrow> nat \<Rightarrow> EmojiID \<Rightarrow> entropy \<Rightarrow> (EmojiID result \<times> entropy) option" where
  "fillTokens alphabet i eid src =
     (if i < 32 then
        (case cryptoRandIndex (int (length alphabet)) src of
           None \<Rightarrow> None
         | Some ((idx, err), src') \<Rightarrow>
             if err \<noteq> None then Some ((zeroID, err), src')
             else if idx < 0 \<or> int (length alphabet) \<le> idx
               then Some ((zeroID, Some RuntimePanic), src')
             else fillTokens alphabet (i + 1)
                    (eid\<lparr>tokens := (tokens eid)[i := alphabet ! nat idx]\<rparr>) src')
      else Some ((eid, None), src))"
  by pat_completeness auto
termination
  by (relation "measure (\<lambda>(alphabet, i, eid, src). 32 - i)") auto

declare fillTokens.simps [simp del]

definition NewWithAlphabet :: "rune list \<Rightarrow> entropy \<Rightarrow> (EmojiID result \<times> entropy) option" where
  "NewWithAlphabet alphabet src =
     (if length alphabet < 2 then Some ((zeroID, Some ErrAlphabetTooSmall), src)
      else fillTokens alphabet 0 zeroID src)"

definition New :: "entropy \<Rightarrow> (EmojiID result \<times> entropy) option" where
  "New src = NewWithAlphabet DefaultAlphabet src"

section \<open>\<open>EmojiID.Tokens\<close> and aliasing\<close>

text \<open>
  Whether the slice returned by \<open>Tokens\<close> shares memory with the identifier is a question
  about addresses, so arrays live in a store here: an address is an index into the store,
  and allocation appends a fresh array. A slice is a pointer to its backing array with a
  length. An identifier variable is the address of its \<open>tokens\<close> array.
\<close>

type_synonym addr = nat
type_synonym store = "rune list list"

record slice_ref =
  ptr :: addr
  len :: nat

text \<open>\<open>make([]rune, n)\<close>: a fresh zeroed array and a slice of all of it.\<close>

definition make_runes :: "nat \<Rightarrow> store \<Rightarrow> slice_ref \<times> store" where
  "make_runes n st = (\<lparr>ptr = length st, len = n\<rparr>, st @ [replicate n 0])"

text \<open>\<open>copy(dst, src)\<close> copies \<open>min(len(dst), len(src))\<close> elements.\<close>

definition copy_runes :: "slice_ref \<Rightarrow> slice_ref \<Rightarrow> store \<Rightarrow> store" where
  "copy_runes dst src st =
     (let k = min (len dst) (len src)
      in st[ptr dst := take k (st ! ptr src) @ drop k (st ! ptr dst)])"

text \<open>
  \<open>a.Tokens()\<close> for the identifier at address \<open>a\<close>. The receiver \<open>e\<close> is passed by value:
  the call copies the array of \<open>a\<close> into a fresh one, and \<open>e.tokens[:]\<close> is a slice of that
  copy. Then \<open>out := make([]rune, 32)\<close>, \<open>copy(out, e.tokens[:])\<close>, \<open>return out\<close>.
\<close>

definition Tokens :: "addr \<Rightarrow> store \<Rightarrow> slice_ref \<times> store" where
  "Tokens a st =
     (let e = length st;
          st = st @ [st ! a];
          (out, st) = make_runes 32 st;
          st = copy_runes out \<lparr>ptr = e, len = 32\<rparr> st
      in (out, st))"

text \<open>Reading a slice, and the assignment \<open>s[i] = v\<close>, which panics out of range.\<close>

definition read_slice :: "slice_ref \<Rightarrow> store \<Rightarrow> rune list" where
  "read_slice s st = take (len s) (st ! ptr s)"

definition set_index :: "slice_ref \<Rightarrow> nat \<Rightarrow> rune \<Rightarrow> store \<Rightarrow> store option" where
  "set_index s i v st =
     (if i < len s then Some (st[ptr s := (st ! ptr s)[i := v]]) else None)"

text \<open>A sequence of assignments through a slice; a panic ends it.\<close>

fun set_indices :: "slice_ref \<Rightarrow> (nat \<times> rune) list \<Rightarrow> store \<Rightarrow> store option" where
  "set_indices s [] st = Some st"
| "set_indices s ((i, v) # ws) st =
     (case set_index s i v st of None \<Rightarrow> None | Some st' \<Rightarrow> set_indices s ws st')"

section \<open>Splitting and joining on the delimiter\<close>

lemma Split_Nil: "Split [] = [[]]"
  by (simp add: Split.simps)

lemma Split_Cons:
  "Split (c # cs) = (if c = dash then [] # Split cs else (c # hd (Split cs)) # tl (Split cs))"
proof (cases "c = dash")
  case True
  have "Split (dash # cs) = [] # Split cs" by (subst Split.simps) simp
  with True show ?thesis by simp
next
  case False
  show ?thesis
  proof (cases "dash \<in> set cs")
    case True
    with False show ?thesis
      by (simp add: Split.simps [of "c # cs"] Split.simps [of cs])
  next
    case False
    with \<open>c \<noteq> dash\<close> show ?thesis
      by (simp add: Split.simps [of "c # cs"] Split.simps [of cs])
  qed
qed

lemma Split_not_Nil: "Split s \<noteq> []"
  by (subst Split.simps) simp

fun joinDash :: "gostring list \<Rightarrow> gostring" where
  "joinDash [] = []"
| "joinDash [p] = p"
| "joinDash (p # q # ps) = p @ dash # joinDash (q # ps)"

lemma joinDash_Cons: "ps \<noteq> [] \<Longrightarrow> joinDash (p # ps) = p @ dash # joinDash ps"
  by (cases ps) simp_all

lemma joinDash_Split: "joinDash (Split s) = s"
proof (induction s)
  case Nil
  show ?case by (simp add: Split_Nil)
next
  case (Cons c cs)
  obtain p ps where sp: "Split cs = p # ps"
    using Split_not_Nil [of cs] by (cases "Split cs") auto
  show ?case
  proof (cases "c = dash")
    case True
    with Cons show ?thesis by (simp add: Split_Cons joinDash_Cons Split_not_Nil)
  next
    case False
    with Cons sp show ?thesis by (cases ps) (simp_all add: Split_Cons)
  qed
qed

lemma Split_no_dash: "dash \<notin> set p \<Longrightarrow> Split p = [p]"
  by (subst Split.simps) simp

lemma Split_append_dash:
  "dash \<notin> set p \<Longrightarrow> Split (p @ dash # s) = p # Split s"
  by (induction p) (simp_all add: Split_Cons)

lemma Split_joinDash:
  "parts \<noteq> [] \<Longrightarrow> \<forall>p \<in> set parts. dash \<notin> set p \<Longrightarrow> Split (joinDash parts) = parts"
proof (induction parts rule: joinDash.induct)
  case 1
  then show ?case by simp
next
  case (2 p)
  then show ?case by (simp add: Split_no_dash)
next
  case (3 p q ps)
  then show ?case by (simp add: Split_append_dash)
qed

lemma Split_parts_no_dash: "p \<in> set (Split s) \<Longrightarrow> dash \<notin> set p"
proof (induction s arbitrary: p)
  case Nil
  then show ?case by (simp add: Split_Nil)
next
  case (Cons c cs)
  obtain q qs where sp: "Split cs = q # qs"
    using Split_not_Nil [of cs] by (cases "Split cs") auto
  from Cons sp show ?case
    by (auto simp: Split_Cons split: if_splits)
qed

section \<open>What \<open>ParseWithAlphabet\<close> computes\<close>

lemma collectParts_eq:
  "collectParts ps i toks =
     (if map (\<lambda>p. length (runes p)) ps = map (\<lambda>j. want ! (i + j)) [0..<length ps]
      then Some (toks @ concat (map runes ps)) else None)"
proof (induction ps arbitrary: i toks)
  case Nil
  show ?case by simp
next
  case (Cons p ps)
  have shift: "map (\<lambda>j. want ! (i + j)) [0..<Suc (length ps)]
      = want ! i # map (\<lambda>j. want ! (Suc i + j)) [0..<length ps]"
    by (simp add: upt_conv_Cons map_Suc_upt [symmetric] del: upt_Suc)
  show ?case
    by (simp add: Cons.IH shift Let_def del: upt_Suc)
qed

lemma want_upt: "map (\<lambda>j. want ! (0 + j)) [0..<5] = want"
  by (simp add: want_def upt_conv_Cons)

lemma allowed_of_foldl:
  "foldl (\<lambda>m r. m(r \<mapsto> ())) m0 alphabet r = (if r \<in> set alphabet then Some () else m0 r)"
  by (induction alphabet arbitrary: m0) auto

lemma allowed_of_None: "allowed_of alphabet r = None \<longleftrightarrow> r \<notin> set alphabet"
  by (simp add: allowed_of_def allowed_of_foldl)

lemma checkTokens_eq:
  "i \<le> 32 \<Longrightarrow> length toks = 32 \<Longrightarrow> length (tokens eid) = 32 \<Longrightarrow>
   checkTokens allowed toks i eid =
     (case find (\<lambda>r. allowed r = None) (drop i toks) of
        Some r \<Rightarrow> (zeroID, Some (ErrInvalidToken (encodeRune r)))
      | None \<Rightarrow> (\<lparr>tokens = take i (tokens eid) @ drop i toks\<rparr>, None))"
proof (induction allowed toks i eid rule: checkTokens.induct)
  case (1 allowed toks i eid)
  show ?case
  proof (cases "i < 32")
    case False
    with 1 have "i = 32" by simp
    with 1 show ?thesis by (simp add: checkTokens.simps [of _ _ 32])
  next
    case True
    with 1 have dr: "drop i toks = toks ! i # drop (Suc i) toks"
      by (simp add: Cons_nth_drop_Suc)
    show ?thesis
    proof (cases "allowed (toks ! i) = None")
      case True
      with \<open>i < 32\<close> show ?thesis
        by (simp add: checkTokens.simps [of _ _ i] dr)
    next
      case False
      have tk: "take (Suc i) ((tokens eid)[i := toks ! i]) = take i (tokens eid) @ [toks ! i]"
        using True 1 by (simp add: take_Suc_conv_app_nth)
      from False True 1 tk show ?thesis
        by (simp add: checkTokens.simps [of _ _ i] dr split: option.split)
    qed
  qed
qed

definition shape_ok :: "gostring \<Rightarrow> bool" where
  "shape_ok s \<longleftrightarrow> map (\<lambda>p. length (runes p)) (Split s) = want"

definition tokens_of :: "gostring \<Rightarrow> rune list" where
  "tokens_of s = concat (map runes (Split s))"

lemma length_concat_shape:
  "map (\<lambda>p. length (runes p)) ps = want \<Longrightarrow> length (concat (map runes ps)) = 32"
proof -
  assume a: "map (\<lambda>p. length (runes p)) ps = want"
  have "length (concat (map runes ps)) = sum_list (map (\<lambda>p. length (runes p)) ps)"
    by (simp add: length_concat comp_def)
  with a show ?thesis by (simp add: want_def)
qed

lemma ParseWithAlphabet_eq:
  "ParseWithAlphabet s alphabet =
     (if length alphabet < 2 then (zeroID, Some ErrAlphabetTooSmall)
      else if \<not> shape_ok s then (zeroID, Some ErrInvalidFormat)
      else (case find (\<lambda>r. r \<notin> set alphabet) (tokens_of s) of
              Some r \<Rightarrow> (zeroID, Some (ErrInvalidToken (encodeRune r)))
            | None \<Rightarrow> (\<lparr>tokens = tokens_of s\<rparr>, None)))"
proof (cases "length alphabet < 2")
  case True
  then show ?thesis by (simp add: ParseWithAlphabet_def)
next
  case big: False
  show ?thesis
  proof (cases "length (Split s) = 5")
    case False
    then have "\<not> shape_ok s"
      by (auto simp: shape_ok_def want_def dest: arg_cong [where f = length])
    with False big show ?thesis by (simp add: ParseWithAlphabet_def)
  next
    case five: True
    show ?thesis
    proof (cases "shape_ok s")
      case False
      with five have "collectParts (Split s) 0 [] = None"
        using want_upt by (simp add: collectParts_eq shape_ok_def del: upt_Suc)
      with False big five show ?thesis by (simp add: ParseWithAlphabet_def)
    next
      case True
      with five have cp: "collectParts (Split s) 0 [] = Some (tokens_of s)"
        using want_upt by (simp add: collectParts_eq shape_ok_def tokens_of_def del: upt_Suc)
      from True have len: "length (tokens_of s) = 32"
        by (simp add: shape_ok_def tokens_of_def length_concat_shape)
      have z: "length (tokens zeroID) = 32" by (simp add: zeroID_def)
      from True big five cp len show ?thesis
        by (simp add: ParseWithAlphabet_def checkTokens_eq [OF _ len z] allowed_of_None
            split: option.split)
    qed
  qed
qed

section \<open>UTF-8 in arithmetic\<close>

lemma or_add_nat: "b < 2 ^ k \<Longrightarrow> (a * 2 ^ k) OR b = a * 2 ^ k + (b::nat)"
proof -
  assume "b < 2 ^ k"
  then have b: "take_bit k b = b" by (rule take_bit_nat_eq_self)
  have "push_bit k a + take_bit k b = push_bit k a OR take_bit k b"
    by (rule disjunctive_add) (auto simp: bit_simps)
  then show ?thesis by (simp add: b push_bit_eq_mult)
qed

lemma and_mask_nat: "(x::nat) AND mask k = x mod 2 ^ k"
  by (simp add: take_bit_eq_mask [symmetric] take_bit_eq_mod)

lemma mask_nat_numerals:
  "(63::nat) = mask 6" "(31::nat) = mask 5" "(15::nat) = mask 4" "(7::nat) = mask 3"
  by (simp_all add: mask_eq_exp_minus_1)

lemma unat_byte_lt: "unat (b::byte) < 256"
  using unsigned_less [of b, where 'a = nat] by simp

lemma unat_rune_lt: "unat (r::rune) < 4294967296"
  using unsigned_less [of r, where 'a = nat] by simp

lemma unat_ucast_byte: "unat (ucast (r::rune) :: byte) = unat r mod 256"
  by (simp add: unsigned_ucast_eq take_bit_eq_mod)

lemma unat_ucast_rune: "unat (ucast (b::byte) :: rune) = unat b"
proof -
  have "unat b < 2 ^ 32" using unat_byte_lt [of b] by simp
  then show ?thesis by (simp add: unsigned_ucast_eq take_bit_nat_eq_self)
qed

lemma unat_and_maskx: "unat ((b::byte) AND maskx) = unat b mod 64"
proof -
  have "unat (b AND maskx) = unat b AND 63" by (simp add: unsigned_and_eq)
  also have "\<dots> = unat b mod 2 ^ 6" by (simp only: mask_nat_numerals and_mask_nat)
  finally show ?thesis by simp
qed

lemma unat_and_mask2: "unat ((b::byte) AND mask2) = unat b mod 32"
proof -
  have "unat (b AND mask2) = unat b AND 31" by (simp add: unsigned_and_eq)
  also have "\<dots> = unat b mod 2 ^ 5" by (simp only: mask_nat_numerals and_mask_nat)
  finally show ?thesis by simp
qed

lemma unat_and_mask3: "unat ((b::byte) AND mask3) = unat b mod 16"
proof -
  have "unat (b AND mask3) = unat b AND 15" by (simp add: unsigned_and_eq)
  also have "\<dots> = unat b mod 2 ^ 4" by (simp only: mask_nat_numerals and_mask_nat)
  finally show ?thesis by simp
qed

lemma unat_and_mask4: "unat ((b::byte) AND mask4) = unat b mod 8"
proof -
  have "unat (b AND mask4) = unat b AND 7" by (simp add: unsigned_and_eq)
  also have "\<dots> = unat b mod 2 ^ 3" by (simp only: mask_nat_numerals and_mask_nat)
  finally show ?thesis by simp
qed

lemma unat_push_bit_rune:
  assumes "unat x * 2 ^ k < 2 ^ 32"
  shows "unat (push_bit k (x::rune)) = unat x * 2 ^ k"
proof -
  have "unat (push_bit k x) = take_bit 32 (push_bit k (unat x))"
    by (simp only: unsigned_push_bit_eq) simp
  also have "\<dots> = take_bit 32 (unat x * 2 ^ k)" by (simp only: push_bit_eq_mult)
  also have "\<dots> = unat x * 2 ^ k" using assms by (rule take_bit_nat_eq_self)
  finally show ?thesis .
qed

lemma unat_or_rune:
  "unat (y::rune) < 2 ^ k \<Longrightarrow> unat x = a * 2 ^ k \<Longrightarrow> unat (x OR y) = unat x + unat y"
  by (simp add: unsigned_or_eq or_add_nat)

lemma unat_or_byte:
  "unat (y::byte) < 2 ^ k \<Longrightarrow> unat x = a * 2 ^ k \<Longrightarrow> unat (x OR y) = unat x + unat y"
  by (simp add: unsigned_or_eq or_add_nat)

lemma not_bit31: "unat (r::rune) < 2 ^ 31 \<Longrightarrow> \<not> bit r 31"
proof -
  assume a: "unat r < 2 ^ 31"
  have "bit r 31 \<longleftrightarrow> bit (unat r) 31" by (simp add: bit_unsigned_iff)
  also have "\<dots> \<longleftrightarrow> odd (unat r div 2 ^ 31)" by (simp only: bit_iff_odd)
  also have "\<dots> \<longleftrightarrow> False" using a by simp
  finally show ?thesis by simp
qed

lemma signed_drop_bit_small:
  "unat (r::rune) < 2 ^ 31 \<Longrightarrow> signed_drop_bit k r = drop_bit k r"
proof -
  assume "unat r < 2 ^ 31"
  then have nb: "\<not> bit r 31" by (rule not_bit31)
  show ?thesis
  proof (rule bit_word_eqI)
    fix n assume "n < LENGTH(32)"
    show "bit (signed_drop_bit k r) n = bit (drop_bit k r) n"
      using nb by (auto simp: bit_signed_drop_bit_iff bit_drop_bit_eq dest: bit_imp_le_length)
  qed
qed

lemma unat_drop_bit_rune: "unat (drop_bit k (r::rune)) = unat r div 2 ^ k"
proof -
  have "unat (drop_bit k r) = drop_bit k (unat r)" by (rule unat_drop_bit_eq)
  also have "\<dots> = unat r div 2 ^ k" by (rule drop_bit_eq_div)
  finally show ?thesis .
qed

lemma sint_rune_small:
  assumes "unat (r::rune) < 2 ^ 31"
  shows "sint r = int (unat r)"
proof -
  have nb: "\<not> bit r 31" using assms by (rule not_bit31)
  have "sint r = signed_take_bit 31 (uint r)" by (simp add: sint_uint)
  also have "\<dots> = uint r"
  proof (rule signed_take_bit_int_eq_self)
    have "(0::int) \<le> 2 ^ 31" by simp
    then show "- (2 ^ 31) \<le> uint r" using uint_ge_0 [of r] by linarith
    have "int (unat r) < int (2 ^ 31)" using assms by (simp only: of_nat_less_iff)
    then show "uint r < 2 ^ 31" by (simp only: uint_nat) simp
  qed
  finally show ?thesis by (simp only: uint_nat)
qed

lemma dec2_unat:
  "unat (push_bit 6 (ucast ((b0::byte) AND mask2)) OR ucast ((b1::byte) AND maskx) :: rune)
     = (unat b0 mod 32) * 64 + unat b1 mod 64"
proof -
  let ?x = "ucast (b0 AND mask2) :: rune" and ?y = "ucast (b1 AND maskx) :: rune"
  have x: "unat ?x = unat b0 mod 32" by (simp only: unat_ucast_rune unat_and_mask2)
  have y: "unat ?y = unat b1 mod 64" by (simp only: unat_ucast_rune unat_and_maskx)
  have "unat ?x * 2 ^ 6 < 2 ^ 32" unfolding x by simp
  then have px: "unat (push_bit 6 ?x) = (unat b0 mod 32) * 2 ^ 6"
    unfolding x [symmetric] by (rule unat_push_bit_rune)
  have "unat ?y < 2 ^ 6" unfolding y by simp
  from unat_or_rune [OF this px] show ?thesis unfolding px y by simp
qed

lemma dec3_unat:
  "unat ((push_bit 12 (ucast ((b0::byte) AND mask3)) OR push_bit 6 (ucast ((b1::byte) AND maskx)))
         OR ucast ((b2::byte) AND maskx) :: rune)
     = (unat b0 mod 16) * 4096 + (unat b1 mod 64) * 64 + unat b2 mod 64"
proof -
  let ?x = "ucast (b0 AND mask3) :: rune" and ?y = "ucast (b1 AND maskx) :: rune"
    and ?z = "ucast (b2 AND maskx) :: rune"
  have x: "unat ?x = unat b0 mod 16" by (simp only: unat_ucast_rune unat_and_mask3)
  have y: "unat ?y = unat b1 mod 64" by (simp only: unat_ucast_rune unat_and_maskx)
  have z: "unat ?z = unat b2 mod 64" by (simp only: unat_ucast_rune unat_and_maskx)
  have "unat ?x * 2 ^ 12 < 2 ^ 32" unfolding x by simp
  then have px: "unat (push_bit 12 ?x) = (unat b0 mod 16) * 2 ^ 12"
    unfolding x [symmetric] by (rule unat_push_bit_rune)
  have px': "unat (push_bit 12 ?x) = ((unat b0 mod 16) * 2 ^ 6) * 2 ^ 6"
    unfolding px by simp
  have "unat ?y * 2 ^ 6 < 2 ^ 32" unfolding y by simp
  then have py: "unat (push_bit 6 ?y) = (unat b1 mod 64) * 2 ^ 6"
    unfolding y [symmetric] by (rule unat_push_bit_rune)
  have "unat (push_bit 6 ?y) < 2 ^ 12" unfolding py by simp
  from unat_or_rune [OF this px]
  have xy: "unat (push_bit 12 ?x OR push_bit 6 ?y)
      = ((unat b0 mod 16) * 2 ^ 6 + unat b1 mod 64) * 2 ^ 6"
    unfolding px py by simp
  have "unat ?z < 2 ^ 6" unfolding z by simp
  from unat_or_rune [OF this xy] show ?thesis unfolding xy z by simp
qed

lemma dec4_unat:
  "unat (((push_bit 18 (ucast ((b0::byte) AND mask4)) OR push_bit 12 (ucast ((b1::byte) AND maskx)))
         OR push_bit 6 (ucast ((b2::byte) AND maskx))) OR ucast ((b3::byte) AND maskx) :: rune)
     = (unat b0 mod 8) * 262144 + (unat b1 mod 64) * 4096 + (unat b2 mod 64) * 64
       + unat b3 mod 64"
proof -
  let ?w = "ucast (b0 AND mask4) :: rune" and ?x = "ucast (b1 AND maskx) :: rune"
    and ?y = "ucast (b2 AND maskx) :: rune" and ?z = "ucast (b3 AND maskx) :: rune"
  have w: "unat ?w = unat b0 mod 8" by (simp only: unat_ucast_rune unat_and_mask4)
  have x: "unat ?x = unat b1 mod 64" by (simp only: unat_ucast_rune unat_and_maskx)
  have y: "unat ?y = unat b2 mod 64" by (simp only: unat_ucast_rune unat_and_maskx)
  have z: "unat ?z = unat b3 mod 64" by (simp only: unat_ucast_rune unat_and_maskx)
  have "unat ?w * 2 ^ 18 < 2 ^ 32" unfolding w by simp
  then have pw: "unat (push_bit 18 ?w) = (unat b0 mod 8) * 2 ^ 18"
    unfolding w [symmetric] by (rule unat_push_bit_rune)
  have "unat ?x * 2 ^ 12 < 2 ^ 32" unfolding x by simp
  then have px: "unat (push_bit 12 ?x) = (unat b1 mod 64) * 2 ^ 12"
    unfolding x [symmetric] by (rule unat_push_bit_rune)
  have "unat ?y * 2 ^ 6 < 2 ^ 32" unfolding y by simp
  then have py: "unat (push_bit 6 ?y) = (unat b2 mod 64) * 2 ^ 6"
    unfolding y [symmetric] by (rule unat_push_bit_rune)
  have pw': "unat (push_bit 18 ?w) = ((unat b0 mod 8) * 2 ^ 6) * 2 ^ 12"
    unfolding pw by simp
  have "unat (push_bit 12 ?x) < 2 ^ 18" unfolding px by simp
  from unat_or_rune [OF this, of "push_bit 18 ?w" "(unat b0 mod 8)"] pw
  have wx: "unat (push_bit 18 ?w OR push_bit 12 ?x)
      = ((unat b0 mod 8) * 2 ^ 6 + unat b1 mod 64) * 2 ^ 12"
    unfolding px by simp
  have "unat (push_bit 6 ?y) < 2 ^ 12" unfolding py by simp
  from unat_or_rune [OF this wx]
  have wxy: "unat ((push_bit 18 ?w OR push_bit 12 ?x) OR push_bit 6 ?y)
      = (((unat b0 mod 8) * 2 ^ 6 + unat b1 mod 64) * 2 ^ 6 + unat b2 mod 64) * 2 ^ 6"
    unfolding wx py by simp
  have "unat ?z < 2 ^ 6" unfolding z by simp
  from unat_or_rune [OF this wxy] show ?thesis unfolding wxy z by simp
qed

lemma unat_tx_or: "unat (y::byte) < 64 \<Longrightarrow> unat (tx OR y) = 128 + unat y"
  using unat_or_byte [of y 7 tx 1] by simp

lemma unat_t2_or: "unat (y::byte) < 32 \<Longrightarrow> unat (t2 OR y) = 192 + unat y"
  using unat_or_byte [of y 6 t2 3] by simp

lemma unat_t3_or: "unat (y::byte) < 16 \<Longrightarrow> unat (t3 OR y) = 224 + unat y"
  using unat_or_byte [of y 5 t3 7] by simp

lemma unat_t4_or: "unat (y::byte) < 8 \<Longrightarrow> unat (t4 OR y) = 240 + unat y"
  using unat_or_byte [of y 4 t4 15] by simp

lemma unat_low6: "unat (ucast (r::rune) AND maskx) = unat r mod 64"
proof -
  have "unat (ucast r AND maskx) = (unat r mod 256) mod 64"
    by (simp only: unat_and_maskx unat_ucast_byte)
  also have "\<dots> = unat r mod 64" by (simp add: mod_mod_cancel)
  finally show ?thesis .
qed

lemma unat_shift_low6:
  "unat (r::rune) < 2 ^ 31 \<Longrightarrow>
   unat (ucast (signed_drop_bit k r) AND maskx) = (unat r div 2 ^ k) mod 64"
  by (simp only: signed_drop_bit_small unat_low6 unat_drop_bit_rune)

lemma unat_shift_byte:
  "unat (r::rune) < 2 ^ 31 \<Longrightarrow> unat r div 2 ^ k < 256 \<Longrightarrow>
   unat (ucast (signed_drop_bit k r) :: byte) = unat r div 2 ^ k"
proof -
  assume a: "unat r < 2 ^ 31" and b: "unat r div 2 ^ k < 256"
  have "unat (ucast (signed_drop_bit k r) :: byte) = (unat r div 2 ^ k) mod 256"
    by (simp only: signed_drop_bit_small [OF a] unat_ucast_byte unat_drop_bit_rune)
  with b show ?thesis by simp
qed

lemma tail_byte: "unat (tx OR (ucast (r::rune) AND maskx)) = 128 + unat r mod 64"
proof -
  have "unat r mod 64 < 64" by simp
  then have "unat (ucast r AND maskx) < 64" by (simp only: unat_low6)
  from unat_tx_or [OF this] show ?thesis by (simp only: unat_low6)
qed

lemma mid_byte:
  assumes "unat (r::rune) < 2 ^ 31"
  shows "unat (tx OR (ucast (signed_drop_bit k r) AND maskx)) = 128 + (unat r div 2 ^ k) mod 64"
proof -
  have "(unat r div 2 ^ k) mod 64 < 64" by simp
  then have "unat (ucast (signed_drop_bit k r) AND maskx) < 64"
    by (simp only: unat_shift_low6 [OF assms])
  from unat_tx_or [OF this] show ?thesis by (simp only: unat_shift_low6 [OF assms])
qed

lemma enc1: "unat r \<le> 127 \<Longrightarrow> encodeRune r = [ucast r]"
  by (simp add: encodeRune_def word_le_nat_alt)

lemma enc2:
  assumes "128 \<le> unat r" "unat r \<le> 2047"
  shows "map unat (encodeRune r) = [192 + unat r div 64, 128 + unat r mod 64]"
proof -
  have small: "unat r < 2 ^ 31" using assms by simp
  have d: "unat r div 2 ^ 6 < 32" using assms by simp
  then have "unat (ucast (signed_drop_bit 6 r) :: byte) = unat r div 2 ^ 6"
    using unat_shift_byte [OF small, of 6] by simp
  with d have h: "unat (t2 OR ucast (signed_drop_bit 6 r)) = 192 + unat r div 64"
    using unat_t2_or [of "ucast (signed_drop_bit 6 r)"] by simp
  have e: "encodeRune r = [t2 OR ucast (signed_drop_bit 6 r), tx OR (ucast r AND maskx)]"
    using assms by (simp add: encodeRune_def word_le_nat_alt)
  show ?thesis unfolding e by (simp only: list.map h tail_byte)
qed

lemma encErr:
  assumes "1114111 < unat r \<or> (55296 \<le> unat r \<and> unat r \<le> 57343)"
  shows "encodeRune r = [0xEF, 0xBF, 0xBD]"
proof -
  have "\<not> r \<le> rune1Max" "\<not> r \<le> rune2Max"
       "r > maxRune \<or> (surrogateMin \<le> r \<and> r \<le> surrogateMax)"
    using assms by (auto simp: word_le_nat_alt word_less_nat_alt)
  then show ?thesis by (auto simp: encodeRune_def)
qed

lemma enc3:
  assumes "2048 \<le> unat r" "unat r \<le> 65535" "\<not> (55296 \<le> unat r \<and> unat r \<le> 57343)"
  shows "map unat (encodeRune r)
    = [224 + unat r div 4096, 128 + (unat r div 64) mod 64, 128 + unat r mod 64]"
proof -
  have small: "unat r < 2 ^ 31" using assms by simp
  have d: "unat r div 2 ^ 12 < 16" using assms by simp
  then have "unat (ucast (signed_drop_bit 12 r) :: byte) = unat r div 2 ^ 12"
    using unat_shift_byte [OF small, of 12] by simp
  with d have h: "unat (t3 OR ucast (signed_drop_bit 12 r)) = 224 + unat r div 4096"
    using unat_t3_or [of "ucast (signed_drop_bit 12 r)"] by simp
  have c: "\<not> r \<le> rune1Max" "\<not> r \<le> rune2Max" "\<not> r > maxRune"
      "\<not> (surrogateMin \<le> r \<and> r \<le> surrogateMax)" "r \<le> rune3Max"
    using assms by (auto simp: word_le_nat_alt word_less_nat_alt)
  have e: "encodeRune r = [t3 OR ucast (signed_drop_bit 12 r),
      tx OR (ucast (signed_drop_bit 6 r) AND maskx), tx OR (ucast r AND maskx)]"
    using c by (auto simp: encodeRune_def)
  show ?thesis unfolding e using mid_byte [OF small, of 6]
    by (simp only: list.map h tail_byte) simp
qed

lemma enc4:
  assumes "65536 \<le> unat r" "unat r \<le> 1114111"
  shows "map unat (encodeRune r)
    = [240 + unat r div 262144, 128 + (unat r div 4096) mod 64,
       128 + (unat r div 64) mod 64, 128 + unat r mod 64]"
proof -
  have small: "unat r < 2 ^ 31" using assms by simp
  have d: "unat r div 2 ^ 18 < 8" using assms by simp
  then have "unat (ucast (signed_drop_bit 18 r) :: byte) = unat r div 2 ^ 18"
    using unat_shift_byte [OF small, of 18] by simp
  with d have h: "unat (t4 OR ucast (signed_drop_bit 18 r)) = 240 + unat r div 262144"
    using unat_t4_or [of "ucast (signed_drop_bit 18 r)"] by simp
  have c: "\<not> r \<le> rune1Max" "\<not> r \<le> rune2Max" "\<not> r > maxRune"
      "\<not> (surrogateMin \<le> r \<and> r \<le> surrogateMax)" "\<not> r \<le> rune3Max"
    using assms by (auto simp: word_le_nat_alt word_less_nat_alt)
  have e: "encodeRune r = [t4 OR ucast (signed_drop_bit 18 r),
      tx OR (ucast (signed_drop_bit 12 r) AND maskx),
      tx OR (ucast (signed_drop_bit 6 r) AND maskx), tx OR (ucast r AND maskx)]"
    using c by (auto simp: encodeRune_def)
  show ?thesis unfolding e using mid_byte [OF small, of 6] mid_byte [OF small, of 12]
    by (simp only: list.map h tail_byte) simp
qed

lemma sless_small:
  "unat (x::rune) < 2 ^ 31 \<Longrightarrow> unat y < 2 ^ 31 \<Longrightarrow> x <s y \<longleftrightarrow> unat x < unat y"
  by (simp only: word_sless_alt sint_rune_small of_nat_less_iff)

lemma sle_small:
  "unat (x::rune) < 2 ^ 31 \<Longrightarrow> unat y < 2 ^ 31 \<Longrightarrow> x \<le>s y \<longleftrightarrow> unat x \<le> unat y"
  by (simp only: word_sle_eq sint_rune_small of_nat_le_iff)

lemma cont_unat: "cont b \<longleftrightarrow> 128 \<le> unat b \<and> unat b \<le> 191"
  by (simp add: cont_def word_le_nat_alt)

definition dec2 :: "byte \<Rightarrow> byte \<Rightarrow> rune" where
  "dec2 b0 b1 = push_bit 6 (ucast (b0 AND mask2)) OR ucast (b1 AND maskx)"

definition dec3 :: "byte \<Rightarrow> byte \<Rightarrow> byte \<Rightarrow> rune" where
  "dec3 b0 b1 b2 = (push_bit 12 (ucast (b0 AND mask3)) OR push_bit 6 (ucast (b1 AND maskx)))
     OR ucast (b2 AND maskx)"

definition dec4 :: "byte \<Rightarrow> byte \<Rightarrow> byte \<Rightarrow> byte \<Rightarrow> rune" where
  "dec4 b0 b1 b2 b3 = ((push_bit 18 (ucast (b0 AND mask4)) OR push_bit 12 (ucast (b1 AND maskx)))
     OR push_bit 6 (ucast (b2 AND maskx))) OR ucast (b3 AND maskx)"

lemma unat_dec2: "unat (dec2 b0 b1) = (unat b0 mod 32) * 64 + unat b1 mod 64"
  unfolding dec2_def by (rule dec2_unat)

lemma unat_dec3:
  "unat (dec3 b0 b1 b2) = (unat b0 mod 16) * 4096 + (unat b1 mod 64) * 64 + unat b2 mod 64"
  unfolding dec3_def by (rule dec3_unat)

lemma unat_dec4:
  "unat (dec4 b0 b1 b2 b3) = (unat b0 mod 8) * 262144 + (unat b1 mod 64) * 4096
     + (unat b2 mod 64) * 64 + unat b3 mod 64"
  unfolding dec4_def by (rule dec4_unat)

lemma dec2_small: "unat (dec2 b0 b1) < 2 ^ 31"
proof -
  have "unat b0 mod 32 < 32" "unat b1 mod 64 < 64" by simp_all
  then have "(unat b0 mod 32) * 64 + unat b1 mod 64 < 2 ^ 31" by simp
  then show ?thesis by (simp only: unat_dec2)
qed

lemma dec3_small: "unat (dec3 b0 b1 b2) < 2 ^ 31"
proof -
  have "unat b0 mod 16 < 16" "unat b1 mod 64 < 64" "unat b2 mod 64 < 64" by simp_all
  then have "(unat b0 mod 16) * 4096 + (unat b1 mod 64) * 64 + unat b2 mod 64 < 2 ^ 31" by simp
  then show ?thesis by (simp only: unat_dec3)
qed

lemma dec4_small: "unat (dec4 b0 b1 b2 b3) < 2 ^ 31"
proof -
  have "unat b0 mod 8 < 8" "unat b1 mod 64 < 64" "unat b2 mod 64 < 64" "unat b3 mod 64 < 64"
    by simp_all
  then have "(unat b0 mod 8) * 262144 + (unat b1 mod 64) * 4096
     + (unat b2 mod 64) * 64 + unat b3 mod 64 < 2 ^ 31" by simp
  then show ?thesis by (simp only: unat_dec4)
qed

text \<open>decoderune, one lemma for each shape of the leading byte\<close>

lemma decoderune_Nil: "decoderune [] = (runeError, 1)"
  by (simp add: decoderune_def)

lemma decoderune_two:
  "t2 \<le> b0 \<Longrightarrow> b0 < t3 \<Longrightarrow>
   decoderune (b0 # cs) =
     (case cs of
        b1 # _ \<Rightarrow> if cont b1 \<and> 127 < unat (dec2 b0 b1) then (dec2 b0 b1, 2) else (runeError, 1)
      | [] \<Rightarrow> (runeError, 1))"
proof -
  have c: "rune1Max <s dec2 b0 b1 \<longleftrightarrow> 127 < unat (dec2 b0 b1)" for b1
    using sless_small [OF _ dec2_small, of rune1Max b0 b1] by simp
  assume "t2 \<le> b0" "b0 < t3"
  then show ?thesis
    by (cases cs) (simp_all add: decoderune_def Let_def dec2_def [symmetric] c)
qed

lemma decoderune_three:
  "t3 \<le> b0 \<Longrightarrow> b0 < t4 \<Longrightarrow>
   decoderune (b0 # cs) =
     (case cs of
        b1 # b2 # _ \<Rightarrow>
          if cont b1 \<and> cont b2 \<and> 2047 < unat (dec3 b0 b1 b2)
             \<and> \<not> (55296 \<le> unat (dec3 b0 b1 b2) \<and> unat (dec3 b0 b1 b2) \<le> 57343)
          then (dec3 b0 b1 b2, 3) else (runeError, 1)
      | _ \<Rightarrow> (runeError, 1))"
proof -
  have c: "rune2Max <s dec3 b0 b1 b2 \<longleftrightarrow> 2047 < unat (dec3 b0 b1 b2)"
    "surrogateMin \<le>s dec3 b0 b1 b2 \<longleftrightarrow> 55296 \<le> unat (dec3 b0 b1 b2)"
    "dec3 b0 b1 b2 \<le>s surrogateMax \<longleftrightarrow> unat (dec3 b0 b1 b2) \<le> 57343" for b1 b2
    using sless_small [OF _ dec3_small, of rune2Max b0 b1 b2]
      sle_small [OF _ dec3_small, of surrogateMin b0 b1 b2]
      sle_small [OF dec3_small, of surrogateMax b0 b1 b2] by simp_all
  assume a: "t3 \<le> b0" "b0 < t4"
  then have n: "\<not> b0 < t3" by (simp add: word_le_nat_alt word_less_nat_alt)
  show ?thesis
  proof (cases cs)
    case Nil
    with a n show ?thesis by (simp add: decoderune_def)
  next
    case (Cons b1 cs')
    with a n show ?thesis
      by (cases cs') (simp_all add: decoderune_def Let_def dec3_def [symmetric] c)
  qed
qed

lemma decoderune_four:
  "t4 \<le> b0 \<Longrightarrow> b0 < t5 \<Longrightarrow>
   decoderune (b0 # cs) =
     (case cs of
        b1 # b2 # b3 # _ \<Rightarrow>
          if cont b1 \<and> cont b2 \<and> cont b3 \<and> 65535 < unat (dec4 b0 b1 b2 b3)
             \<and> unat (dec4 b0 b1 b2 b3) \<le> 1114111
          then (dec4 b0 b1 b2 b3, 4) else (runeError, 1)
      | _ \<Rightarrow> (runeError, 1))"
proof -
  have c: "rune3Max <s dec4 b0 b1 b2 b3 \<longleftrightarrow> 65535 < unat (dec4 b0 b1 b2 b3)"
    "dec4 b0 b1 b2 b3 \<le>s maxRune \<longleftrightarrow> unat (dec4 b0 b1 b2 b3) \<le> 1114111" for b1 b2 b3
    using sless_small [OF _ dec4_small, of rune3Max b0 b1 b2 b3]
      sle_small [OF dec4_small, of maxRune b0 b1 b2 b3] by simp_all
  assume a: "t4 \<le> b0" "b0 < t5"
  then have n: "\<not> b0 < t3" "\<not> b0 < t4"
    by (simp_all add: word_le_nat_alt word_less_nat_alt)
  show ?thesis
  proof (cases cs)
    case Nil
    with a n show ?thesis by (simp add: decoderune_def)
  next
    case c1: (Cons b1 cs1)
    show ?thesis
    proof (cases cs1)
      case Nil
      with c1 a n show ?thesis by (simp add: decoderune_def)
    next
      case c2: (Cons b2 cs2)
      with c1 a n show ?thesis
        by (cases cs2) (simp_all add: decoderune_def Let_def dec4_def [symmetric] c)
    qed
  qed
qed

lemma decoderune_other:
  "\<not> (t2 \<le> b0 \<and> b0 < t5) \<Longrightarrow> decoderune (b0 # cs) = (runeError, 1)"
  by (auto simp: decoderune_def word_le_nat_alt word_less_nat_alt)

lemma rune_eqI: "unat (x::rune) = unat y \<Longrightarrow> x = y"
  by (rule unsigned_word_eqI)

lemma byte_eqI: "unat (x::byte) = unat y \<Longrightarrow> x = y"
  by (rule unsigned_word_eqI)

lemma addmod: "d < n \<Longrightarrow> (k * n + d) mod n = (d::nat)"
  by simp

lemma m32: "d < 32 \<Longrightarrow> (192 + d) mod 32 = (d::nat)"
  using addmod [of d 32 6] by simp

lemma m16: "d < 16 \<Longrightarrow> (224 + d) mod 16 = (d::nat)"
  using addmod [of d 16 14] by simp

lemma m8: "d < 8 \<Longrightarrow> (240 + d) mod 8 = (d::nat)"
  using addmod [of d 8 30] by simp

lemma m64: "(128 + d mod 64) mod 64 = (d::nat) mod 64"
  using addmod [of "d mod 64" 64 2] by simp

lemma recompose2: "(u div 64) * 64 + u mod 64 = (u::nat)"
  by simp

lemma scale64: "(q * 64 + m) * k = q * (64 * k) + m * (k::nat)"
  by (simp add: algebra_simps)

lemma recompose3: "(u div 4096) * 4096 + ((u div 64) mod 64) * 64 + u mod 64 = (u::nat)"
proof -
  have d: "u div 4096 = (u div 64) div 64"
    using div_mult2_eq [of u 64 64] by simp
  have "((u div 64) div 64 * 64 + (u div 64) mod 64) * 64
      = (u div 64) div 64 * (64 * 64) + (u div 64) mod 64 * 64" by (rule scale64)
  then have "(u div 64) * 64 = (u div 64) div 64 * 4096 + (u div 64) mod 64 * 64"
    by (simp only: recompose2)
  then have "(u div 4096) * 4096 + ((u div 64) mod 64) * 64 + u mod 64
      = (u div 64) * 64 + u mod 64" by (simp only: d)
  then show ?thesis by (simp only: recompose2)
qed

lemma recompose4:
  "(u div 262144) * 262144 + ((u div 4096) mod 64) * 4096 + ((u div 64) mod 64) * 64
     + u mod 64 = (u::nat)"
proof -
  have d: "u div 262144 = (u div 4096) div 64"
    using div_mult2_eq [of u 4096 64] by simp
  have "((u div 4096) div 64 * 64 + (u div 4096) mod 64) * 4096
      = (u div 4096) div 64 * (64 * 4096) + (u div 4096) mod 64 * 4096" by (rule scale64)
  then have "(u div 4096) * 4096 = (u div 4096) div 64 * 262144 + (u div 4096) mod 64 * 4096"
    by (simp only: recompose2)
  then have "(u div 262144) * 262144 + ((u div 4096) mod 64) * 4096 + ((u div 64) mod 64) * 64
     + u mod 64 = (u div 4096) * 4096 + ((u div 64) mod 64) * 64 + u mod 64" by (simp only: d)
  then show ?thesis by (simp only: recompose3)
qed

lemma arith2: "128 \<le> u \<Longrightarrow> u \<le> 2047 \<Longrightarrow>
  ((192 + u div 64) mod 32) * 64 + (128 + u mod 64) mod 64 = (u::nat)"
proof -
  assume "128 \<le> u" "u \<le> 2047"
  then have "u div 64 < 32" by (simp add: less_mult_imp_div_less)
  then show ?thesis by (simp only: m32 m64 mod_mod_trivial recompose2)
qed

lemma arith3: "u \<le> 65535 \<Longrightarrow>
  ((224 + u div 4096) mod 16) * 4096 + ((128 + (u div 64) mod 64) mod 64) * 64
    + (128 + u mod 64) mod 64 = (u::nat)"
proof -
  assume "u \<le> 65535"
  then have "u div 4096 < 16" by (simp add: less_mult_imp_div_less)
  then show ?thesis by (simp only: m16 m64 mod_mod_trivial recompose3)
qed

lemma arith4: "u \<le> 1114111 \<Longrightarrow>
  ((240 + u div 262144) mod 8) * 262144 + ((128 + (u div 4096) mod 64) mod 64) * 4096
    + ((128 + (u div 64) mod 64) mod 64) * 64 + (128 + u mod 64) mod 64 = (u::nat)"
proof -
  assume "u \<le> 1114111"
  then have "u div 262144 < 8" by (simp add: less_mult_imp_div_less)
  then show ?thesis by (simp only: m8 m64 mod_mod_trivial recompose4)
qed

section \<open>Reading back what was written\<close>

definition written :: "rune \<Rightarrow> rune" where
  "written r = (if maxRune < r \<or> (surrogateMin \<le> r \<and> r \<le> surrogateMax) then runeError else r)"

lemma written_unat:
  "written r = (if 1114111 < unat r \<or> (55296 \<le> unat r \<and> unat r \<le> 57343) then runeError else r)"
  by (simp add: written_def word_le_nat_alt word_less_nat_alt)

lemma runes_ascii: "unat c < 128 \<Longrightarrow> runes (c # rest) = ucast c # runes rest"
  by (simp add: word_less_nat_alt)

lemma runes_multi:
  "128 \<le> unat c \<Longrightarrow> decoderune (c # cs) = (r, w) \<Longrightarrow>
   runes (c # cs) = r # runes (drop w (c # cs))"
  by (simp add: word_less_nat_alt)

declare runes.simps(2) [simp del]

lemma runes_two:
  assumes "192 \<le> unat b0" "unat b0 < 224" "128 \<le> unat b1" "unat b1 \<le> 191"
    "127 < unat (dec2 b0 b1)"
  shows "runes (b0 # b1 # rest) = dec2 b0 b1 # runes rest"
proof -
  have r: "\<not> b0 < runeSelf" "t2 \<le> b0" "b0 < t3"
    using assms by (simp_all add: word_le_nat_alt word_less_nat_alt)
  have "decoderune (b0 # b1 # rest) = (dec2 b0 b1, 2)"
    using assms by (simp add: decoderune_two [OF r(2,3)] cont_unat)
  from runes_multi [OF _ this] assms(1) show ?thesis by simp
qed

lemma runes_three:
  assumes "224 \<le> unat b0" "unat b0 < 240" "128 \<le> unat b1" "unat b1 \<le> 191"
    "128 \<le> unat b2" "unat b2 \<le> 191"
    "2047 < unat (dec3 b0 b1 b2)"
    "\<not> (55296 \<le> unat (dec3 b0 b1 b2) \<and> unat (dec3 b0 b1 b2) \<le> 57343)"
  shows "runes (b0 # b1 # b2 # rest) = dec3 b0 b1 b2 # runes rest"
proof -
  have r: "\<not> b0 < runeSelf" "t3 \<le> b0" "b0 < t4"
    using assms by (simp_all add: word_le_nat_alt word_less_nat_alt)
  have "decoderune (b0 # b1 # b2 # rest) = (dec3 b0 b1 b2, 3)"
    using assms by (simp add: decoderune_three [OF r(2,3)] cont_unat)
  from runes_multi [OF _ this] assms(1) show ?thesis by simp
qed

lemma runes_four:
  assumes "240 \<le> unat b0" "unat b0 < 248" "128 \<le> unat b1" "unat b1 \<le> 191"
    "128 \<le> unat b2" "unat b2 \<le> 191" "128 \<le> unat b3" "unat b3 \<le> 191"
    "65535 < unat (dec4 b0 b1 b2 b3)" "unat (dec4 b0 b1 b2 b3) \<le> 1114111"
  shows "runes (b0 # b1 # b2 # b3 # rest) = dec4 b0 b1 b2 b3 # runes rest"
proof -
  have r: "\<not> b0 < runeSelf" "t4 \<le> b0" "b0 < t5"
    using assms by (simp_all add: word_le_nat_alt word_less_nat_alt)
  have "decoderune (b0 # b1 # b2 # b3 # rest) = (dec4 b0 b1 b2 b3, 4)"
    using assms by (simp add: decoderune_four [OF r(2,3)] cont_unat)
  from runes_multi [OF _ this] assms(1) show ?thesis by simp
qed

lemma runes_encodeRune: "runes (encodeRune r @ rest) = written r # runes rest"
proof -
  let ?u = "unat r"
  consider (one) "?u \<le> 127" | (two) "128 \<le> ?u" "?u \<le> 2047"
    | (three) "2048 \<le> ?u" "?u \<le> 65535" "\<not> (55296 \<le> ?u \<and> ?u \<le> 57343)"
    | (err) "1114111 < ?u \<or> (55296 \<le> ?u \<and> ?u \<le> 57343)"
    | (four) "65536 \<le> ?u" "?u \<le> 1114111"
    by linarith
  then show ?thesis
  proof cases
    case one
    have c: "unat (ucast r :: byte) = ?u" using one by (simp add: unat_ucast_byte)
    have "ucast (ucast r :: byte) = r"
      by (rule rune_eqI) (simp only: unat_ucast_rune c)
    moreover have "runes (ucast r # rest) = ucast (ucast r :: byte) # runes rest"
      using one c by (intro runes_ascii) simp
    ultimately show ?thesis using one
      by (simp add: enc1 written_unat)
  next
    case two
    from enc2 [OF two] obtain b0 b1 where e: "encodeRune r = [b0, b1]"
      and b0: "unat b0 = 192 + ?u div 64" and b1: "unat b1 = 128 + ?u mod 64"
      by (auto simp: map_eq_Cons_conv)
    have d: "?u div 64 < 32" using two by (simp add: less_mult_imp_div_less)
    have u: "unat (dec2 b0 b1) = ?u"
      by (simp only: unat_dec2 b0 b1 arith2 [OF two])
    then have eq: "dec2 b0 b1 = r" by (rule rune_eqI)
    have "runes (b0 # b1 # rest) = dec2 b0 b1 # runes rest"
      using two d by (intro runes_two) (simp_all add: b0 b1 u)
    with two show ?thesis by (simp add: e eq written_unat)
  next
    case three
    from enc3 [OF three] obtain b0 b1 b2 where e: "encodeRune r = [b0, b1, b2]"
      and b0: "unat b0 = 224 + ?u div 4096" and b1: "unat b1 = 128 + (?u div 64) mod 64"
      and b2: "unat b2 = 128 + ?u mod 64"
      by (auto simp: map_eq_Cons_conv)
    have d: "?u div 4096 < 16" using three by (simp add: less_mult_imp_div_less)
    have u: "unat (dec3 b0 b1 b2) = ?u"
      by (simp only: unat_dec3 b0 b1 b2 arith3 [OF three(2)])
    then have eq: "dec3 b0 b1 b2 = r" by (rule rune_eqI)
    have "runes (b0 # b1 # b2 # rest) = dec3 b0 b1 b2 # runes rest"
      using three d by (intro runes_three) (simp_all add: b0 b1 b2 u)
    with three show ?thesis by (auto simp: e eq written_unat)
  next
    case err
    have "dec3 0xEF 0xBF 0xBD = runeError"
      by (rule rune_eqI) (simp add: unat_dec3)
    then have "runes ([0xEF, 0xBF, 0xBD] @ rest) = runeError # runes rest"
      using runes_three [of "0xEF" "0xBF" "0xBD" rest]
      by (simp add: unat_dec3)
    with err show ?thesis by (simp add: encErr written_unat)
  next
    case four
    from enc4 [OF four] obtain b0 b1 b2 b3 where e: "encodeRune r = [b0, b1, b2, b3]"
      and b0: "unat b0 = 240 + ?u div 262144" and b1: "unat b1 = 128 + (?u div 4096) mod 64"
      and b2: "unat b2 = 128 + (?u div 64) mod 64" and b3: "unat b3 = 128 + ?u mod 64"
      by (auto simp: map_eq_Cons_conv)
    have d: "?u div 262144 < 8" using four by (simp add: less_mult_imp_div_less)
    have u: "unat (dec4 b0 b1 b2 b3) = ?u"
      by (simp only: unat_dec4 b0 b1 b2 b3 arith4 [OF four(2)])
    then have eq: "dec4 b0 b1 b2 b3 = r" by (rule rune_eqI)
    have "runes (b0 # b1 # b2 # b3 # rest) = dec4 b0 b1 b2 b3 # runes rest"
      using four d by (intro runes_four) (simp_all add: b0 b1 b2 b3 u)
    with four show ?thesis by (simp add: e eq written_unat)
  qed
qed

section \<open>Facts about the parser\<close>

text \<open>A string literal of ASCII characters, as a Go string.\<close>

definition ascii :: "string \<Rightarrow> gostring" where
  "ascii cs = map of_char cs"

lemma find_first:
  "i < length xs \<Longrightarrow> P (xs ! i) \<Longrightarrow> \<forall>j<i. \<not> P (xs ! j) \<Longrightarrow> find P xs = Some (xs ! i)"
proof (induction xs arbitrary: i)
  case Nil
  then show ?case by simp
next
  case (Cons x xs)
  show ?case
  proof (cases i)
    case 0
    with Cons.prems show ?thesis by simp
  next
    case (Suc k)
    with Cons.prems have "\<not> P x" by auto
    moreover have "find P xs = Some (xs ! k)"
      using Cons.prems Suc by (intro Cons.IH) auto
    ultimately show ?thesis using Suc by simp
  qed
qed

lemma find_None_subset: "find (\<lambda>r. r \<notin> A) xs = None \<longleftrightarrow> set xs \<subseteq> A"
  by (auto simp: find_None_iff)

lemma shape_ok_length: "shape_ok s \<Longrightarrow> length (tokens_of s) = 32"
  by (simp add: shape_ok_def tokens_of_def length_concat_shape)


lemma shape_ok_iff:
  "shape_ok s \<longleftrightarrow> length (Split s) = 5 \<and> (\<forall>i<5. length (runes (Split s ! i)) = want ! i)"
proof -
  have l: "length want = 5" by (simp add: want_def)
  show ?thesis
    unfolding shape_ok_def list_eq_iff_nth_eq l by auto
qed

lemma ParseWithAlphabet_format_error:
  "2 \<le> length alphabet \<Longrightarrow>
   snd (ParseWithAlphabet s alphabet) = Some ErrInvalidFormat \<longleftrightarrow> \<not> shape_ok s"
  by (simp add: ParseWithAlphabet_eq split: option.split)

section \<open>What \<open>String\<close> writes\<close>

definition encodeRunes :: "rune list \<Rightarrow> gostring" where
  "encodeRunes ts = concat (map encodeRune ts)"

text \<open>Go's \<open>xs[from:to]\<close>.\<close>

definition slice :: "'a list \<Rightarrow> nat \<Rightarrow> nat \<Rightarrow> 'a list" where
  "slice xs from to = take (to - from) (drop from xs)"

definition groups :: "EmojiID \<Rightarrow> rune list list" where
  "groups e = [slice (tokens e) 0 8, slice (tokens e) 8 12, slice (tokens e) 12 16,
               slice (tokens e) 16 20, slice (tokens e) 20 32]"

lemma encodeRunes_simps [simp]:
  "encodeRunes [] = []" "encodeRunes (t # ts) = encodeRune t @ encodeRunes ts"
  "encodeRunes (ts @ us) = encodeRunes ts @ encodeRunes us"
  by (simp_all add: encodeRunes_def)

lemma foldl_append_concat: "foldl (\<lambda>b i. b @ f i) b xs = b @ concat (map f xs)"
  by (induction xs arbitrary: b) simp_all

lemma map_nth_slice:
  "to \<le> length xs \<Longrightarrow> map (\<lambda>i. xs ! i) [from..<to] = slice xs from to"
  by (rule nth_equalityI) (auto simp: slice_def)

lemma writeRunes_eq:
  "to \<le> length (tokens e) \<Longrightarrow> writeRunes e from to b = b @ encodeRunes (slice (tokens e) from to)"
proof -
  assume a: "to \<le> length (tokens e)"
  have "writeRunes e from to b = b @ concat (map (\<lambda>i. encodeRune (tokens e ! i)) [from..<to])"
    unfolding writeRunes_def by (rule foldl_append_concat)
  also have "map (\<lambda>i. encodeRune (tokens e ! i)) [from..<to]
      = map encodeRune (map (\<lambda>i. tokens e ! i) [from..<to])" by simp
  finally show ?thesis by (simp only: map_nth_slice [OF a] encodeRunes_def)
qed

lemma String_eq:
  "wf_id e \<Longrightarrow>
   String e = encodeRunes (slice (tokens e) 0 8) @ [dash] @ encodeRunes (slice (tokens e) 8 12)
     @ [dash] @ encodeRunes (slice (tokens e) 12 16) @ [dash]
     @ encodeRunes (slice (tokens e) 16 20) @ [dash] @ encodeRunes (slice (tokens e) 20 32)"
  by (simp add: String_def wf_id_def writeRunes_eq)

lemma String_joinDash: "wf_id e \<Longrightarrow> String e = joinDash (map encodeRunes (groups e))"
  by (simp add: String_eq groups_def)

lemma take_drop_chain: "take n (drop k xs) @ drop (k + n) xs = drop k xs"
  using append_take_drop_id [of n "drop k xs"] by (simp add: add.commute)

lemma concat_groups: "wf_id e \<Longrightarrow> concat (groups e) = tokens e"
proof -
  assume "wf_id e"
  then have l: "length (tokens e) = 32" by (simp add: wf_id_def)
  have "concat (groups e) = take 8 (tokens e) @ take 4 (drop 8 (tokens e))
      @ take 4 (drop 12 (tokens e)) @ take 4 (drop 16 (tokens e)) @ drop 20 (tokens e)"
    using l by (simp add: groups_def slice_def)
  also have "\<dots> = tokens e"
    using take_drop_chain [of 4 16 "tokens e"] take_drop_chain [of 4 12 "tokens e"]
      take_drop_chain [of 4 8 "tokens e"]
    by simp
  finally show ?thesis .
qed

lemma length_groups: "wf_id e \<Longrightarrow> map length (groups e) = want"
  by (simp add: wf_id_def groups_def slice_def want_def)

lemma runes_dash: "runes (dash # rest) = dashRune # runes rest"
  by (simp add: runes_ascii)

lemma runes_encodeRunes: "runes (encodeRunes ts @ rest) = map written ts @ runes rest"
  by (induction ts) (simp_all add: runes_encodeRune)

lemma runes_encodeRunes': "runes (encodeRunes ts) = map written ts"
  using runes_encodeRunes [of ts "[]"] by simp

lemma runes_String:
  "wf_id e \<Longrightarrow>
   runes (String e) = map written (slice (tokens e) 0 8) @ [dashRune]
     @ map written (slice (tokens e) 8 12) @ [dashRune]
     @ map written (slice (tokens e) 12 16) @ [dashRune]
     @ map written (slice (tokens e) 16 20) @ [dashRune]
     @ map written (slice (tokens e) 20 32)"
  by (simp add: String_eq runes_encodeRunes runes_dash runes_encodeRunes')

lemma encodeRune_high:
  assumes "128 \<le> unat r"
  shows "\<forall>b \<in> set (encodeRune r). 128 \<le> unat b"
proof -
  let ?u = "unat r"
  consider (two) "128 \<le> ?u" "?u \<le> 2047"
    | (three) "2048 \<le> ?u" "?u \<le> 65535" "\<not> (55296 \<le> ?u \<and> ?u \<le> 57343)"
    | (err) "1114111 < ?u \<or> (55296 \<le> ?u \<and> ?u \<le> 57343)"
    | (four) "65536 \<le> ?u" "?u \<le> 1114111"
    using assms by linarith
  then have "\<forall>n \<in> set (map unat (encodeRune r)). 128 \<le> n"
  proof cases
    case two
    show ?thesis unfolding enc2 [OF two] by simp
  next
    case three
    show ?thesis unfolding enc3 [OF three] by simp
  next
    case err
    show ?thesis unfolding encErr [OF err] by simp
  next
    case four
    show ?thesis unfolding enc4 [OF four] by simp
  qed
  then show ?thesis by simp
qed

lemma dash_in_encodeRune: "dash \<in> set (encodeRune r) \<longleftrightarrow> r = dashRune"
proof (cases "unat r \<le> 127")
  case True
  then have c: "unat (ucast r :: byte) = unat r" by (simp add: unat_ucast_byte)
  have "(ucast r :: byte) = dash \<longleftrightarrow> r = dashRune"
  proof
    assume "(ucast r :: byte) = dash"
    then have "unat (ucast r :: byte) = 45" by simp
    with c have "unat r = unat dashRune" by simp
    then show "r = dashRune" by (rule rune_eqI)
  next
    assume "r = dashRune"
    then show "(ucast r :: byte) = dash" by simp
  qed
  with True show ?thesis by (auto simp: enc1)
next
  case False
  then have h: "128 \<le> unat r" by simp
  have "dash \<notin> set (encodeRune r)"
  proof
    assume "dash \<in> set (encodeRune r)"
    with encodeRune_high [OF h] have "128 \<le> unat dash" by blast
    then show False by simp
  qed
  moreover have "r \<noteq> dashRune" using h by auto
  ultimately show ?thesis by simp
qed

lemma dash_in_encodeRunes: "dash \<in> set (encodeRunes ts) \<longleftrightarrow> dashRune \<in> set ts"
  by (induction ts) (auto simp: dash_in_encodeRune)

lemma Split_String:
  assumes "wf_id e" "dashRune \<notin> set (tokens e)"
  shows "Split (String e) = map encodeRunes (groups e)"
proof -
  have "set g \<subseteq> set (tokens e)" if "g \<in> set (groups e)" for g
    using that by (auto simp: groups_def slice_def dest: in_set_takeD in_set_dropD)
  with assms(2) have "\<forall>p \<in> set (map encodeRunes (groups e)). dash \<notin> set p"
    by (auto simp: dash_in_encodeRunes)
  moreover have "map encodeRunes (groups e) \<noteq> []" by (simp add: groups_def)
  ultimately show ?thesis
    unfolding String_joinDash [OF assms(1)] by (intro Split_joinDash)
qed

lemma String_length_runes: "wf_id e \<Longrightarrow> length (runes (String e)) = 36"
  by (simp add: runes_String slice_def wf_id_def)

lemma group_rune_counts:
  "wf_id e \<Longrightarrow> map (\<lambda>g. length (runes (encodeRunes g))) (groups e) = want"
  using length_groups [of e] by (simp add: runes_encodeRunes' comp_def)

lemma length_Split: "length (Split s) = Suc (count_list s dash)"
proof (induction s)
  case Nil
  show ?case by (simp add: Split_Nil)
next
  case (Cons c cs)
  have "Split cs \<noteq> []" by (rule Split_not_Nil)
  then have "length (tl (Split cs)) = count_list cs dash" using Cons by simp
  with Cons show ?case by (simp add: Split_Cons)
qed

lemma encodeRune_dashRune: "encodeRune dashRune = [dash]"
  by (simp add: enc1)

lemma count_dash_encodeRune: "count_list (encodeRune r) dash = (if r = dashRune then 1 else 0)"
proof (cases "r = dashRune")
  case True
  then show ?thesis by (simp add: encodeRune_dashRune)
next
  case False
  then have "dash \<notin> set (encodeRune r)" by (simp add: dash_in_encodeRune)
  then have "count_list (encodeRune r) dash = 0" by simp
  with False show ?thesis by simp
qed

lemma count_dash_encodeRunes: "count_list (encodeRunes ts) dash = count_list ts dashRune"
  by (induction ts) (simp_all add: count_dash_encodeRune)

lemma count_list_concat: "count_list (concat xss) x = sum_list (map (\<lambda>xs. count_list xs x) xss)"
  by (induction xss) simp_all

lemma count_dash_String:
  assumes "wf_id e"
  shows "count_list (String e) dash = 4 + count_list (tokens e) dashRune"
proof -
  have "count_list (tokens e) dashRune = count_list (concat (groups e)) dashRune"
    by (simp only: concat_groups [OF assms])
  also have "\<dots> = count_list (slice (tokens e) 0 8) dashRune
      + count_list (slice (tokens e) 8 12) dashRune + count_list (slice (tokens e) 12 16) dashRune
      + count_list (slice (tokens e) 16 20) dashRune + count_list (slice (tokens e) 20 32) dashRune"
    by (simp add: groups_def)
  finally show ?thesis
    by (simp add: String_eq [OF assms] count_dash_encodeRunes)
qed

lemma length_Split_String:
  "wf_id e \<Longrightarrow> length (Split (String e)) = 5 + count_list (tokens e) dashRune"
  by (simp add: length_Split count_dash_String)

lemma encodeRune_not_Nil: "encodeRune r \<noteq> []"
  by (simp add: encodeRune_def Let_def)

lemma hd_encodeRune_dash: "hd (encodeRune r) = dash \<longleftrightarrow> r = dashRune"
proof (cases "unat r \<le> 127")
  case True
  with dash_in_encodeRune [of r] show ?thesis by (simp add: enc1)
next
  case False
  then have h: "128 \<le> unat r" by simp
  have "hd (encodeRune r) \<in> set (encodeRune r)" by (simp add: encodeRune_not_Nil)
  with encodeRune_high [OF h] have "128 \<le> unat (hd (encodeRune r))" by blast
  then have "hd (encodeRune r) \<noteq> dash" by auto
  moreover have "r \<noteq> dashRune" using h by auto
  ultimately show ?thesis by simp
qed

lemma last_encodeRune_dash: "last (encodeRune r) = dash \<longleftrightarrow> r = dashRune"
proof (cases "unat r \<le> 127")
  case True
  with dash_in_encodeRune [of r] show ?thesis by (simp add: enc1)
next
  case False
  then have h: "128 \<le> unat r" by simp
  have "last (encodeRune r) \<in> set (encodeRune r)" by (simp add: encodeRune_not_Nil)
  with encodeRune_high [OF h] have "128 \<le> unat (last (encodeRune r))" by blast
  then have "last (encodeRune r) \<noteq> dash" by auto
  moreover have "r \<noteq> dashRune" using h by auto
  ultimately show ?thesis by simp
qed

lemma first_slice: "wf_id e \<Longrightarrow> slice (tokens e) 0 8 = tokens e ! 0 # slice (tokens e) 1 8"
  by (cases "tokens e") (simp_all add: wf_id_def slice_def)

lemma last_slice:
  "wf_id e \<Longrightarrow> slice (tokens e) 20 32 = slice (tokens e) 20 31 @ [tokens e ! 31]"
proof -
  assume "wf_id e"
  then have l: "length (tokens e) = 32" by (simp add: wf_id_def)
  then have "length (drop 20 (tokens e)) = Suc 11" by simp
  then have "take (Suc 11) (drop 20 (tokens e)) = take 11 (drop 20 (tokens e)) @ [drop 20 (tokens e) ! 11]"
    by (intro take_Suc_conv_app_nth) simp
  with l show ?thesis by (simp add: slice_def)
qed

lemma String_ends:
  assumes "wf_id e"
  shows "hd (String e) = hd (encodeRune (tokens e ! 0))"
    and "last (String e) = last (encodeRune (tokens e ! 31))"
  by (simp_all add: String_eq [OF assms] first_slice [OF assms]
      last_slice [OF assms] encodeRune_not_Nil)

lemma runes_String_ends:
  assumes "wf_id e"
  shows "hd (runes (String e)) = written (tokens e ! 0)"
    and "last (runes (String e)) = written (tokens e ! 31)"
  by (simp_all add: runes_String [OF assms] first_slice [OF assms] last_slice [OF assms])

section \<open>Writing back what was read\<close>

definition valid_rune :: "rune \<Rightarrow> bool" where
  "valid_rune r \<longleftrightarrow> \<not> (maxRune < r \<or> (surrogateMin \<le> r \<and> r \<le> surrogateMax))"

lemma valid_rune_unat:
  "valid_rune r \<longleftrightarrow> unat r \<le> 1114111 \<and> \<not> (55296 \<le> unat r \<and> unat r \<le> 57343)"
  by (auto simp: valid_rune_def word_le_nat_alt word_less_nat_alt)

lemma written_id_iff: "written r = r \<longleftrightarrow> valid_rune r"
  by (auto simp: written_def valid_rune_def)

lemma valid_runeError: "valid_rune runeError"
  by (simp add: valid_rune_def)

lemma hi32: "192 \<le> x \<Longrightarrow> x < 224 \<Longrightarrow> 192 + x mod 32 = (x::nat)"
  using m32 [of "x - 192"] by simp

lemma hi16: "224 \<le> x \<Longrightarrow> x < 240 \<Longrightarrow> 224 + x mod 16 = (x::nat)"
  using m16 [of "x - 224"] by simp

lemma hi8: "240 \<le> x \<Longrightarrow> x < 248 \<Longrightarrow> 240 + x mod 8 = (x::nat)"
  using m8 [of "x - 240"] by simp

lemma c64: "128 \<le> x \<Longrightarrow> x \<le> 191 \<Longrightarrow> 128 + x mod 64 = (x::nat)"
proof -
  assume a: "128 \<le> x" "x \<le> 191"
  have "(2 * 64 + (x - 128)) mod 64 = x - 128" using a by (intro addmod) simp
  with a show ?thesis by simp
qed

lemma digits_low: "m < 64 \<Longrightarrow> (a * 64 + m) mod 64 = (m::nat)" "m < 64 \<Longrightarrow> (a * 64 + m) div 64 = a"
  by simp_all

lemma map_unat_inj: "map unat xs = map unat ys \<Longrightarrow> xs = (ys :: byte list)"
proof -
  have "inj (unat :: byte \<Rightarrow> nat)" by (rule injI) (rule byte_eqI)
  then have "inj (map (unat :: byte \<Rightarrow> nat))" by (simp only: inj_map)
  moreover assume "map unat xs = map unat ys"
  ultimately show ?thesis by (rule injD)
qed

lemma bound3: "a < 16 \<Longrightarrow> m1 < 64 \<Longrightarrow> m2 < 64 \<Longrightarrow> (a * 64 + m1) * 64 + m2 \<le> (65535::nat)"
  by (simp add: algebra_simps)

lemma enc_dec2:
  assumes "192 \<le> unat c" "unat c < 224" "128 \<le> unat b1" "unat b1 \<le> 191"
    "127 < unat (dec2 c b1)"
  shows "encodeRune (dec2 c b1) = [c, b1]"
proof -
  let ?a = "unat c mod 32" and ?m = "unat b1 mod 64"
  let ?u = "unat (dec2 c b1)"
  have u: "?u = ?a * 64 + ?m" by (rule unat_dec2)
  have "?a < 32" "?m < 64" by simp_all
  then have "?a * 64 + ?m \<le> 2047" by linarith
  then have le: "?u \<le> 2047" by (simp only: u)
  have ge: "128 \<le> ?u" using assms(5) by simp
  have d: "?u div 64 = ?a" "?u mod 64 = ?m" unfolding u by (simp_all add: digits_low)
  have "map unat (encodeRune (dec2 c b1)) = [192 + ?a, 128 + ?m]"
    by (simp only: enc2 [OF ge le] d)
  also have "\<dots> = map unat [c, b1]"
    by (simp only: hi32 [OF assms(1,2)] c64 [OF assms(3,4)] list.map)
  finally show ?thesis by (rule map_unat_inj)
qed

lemma enc_dec3:
  assumes "224 \<le> unat c" "unat c < 240" "128 \<le> unat b1" "unat b1 \<le> 191"
    "128 \<le> unat b2" "unat b2 \<le> 191" "2047 < unat (dec3 c b1 b2)"
    "\<not> (55296 \<le> unat (dec3 c b1 b2) \<and> unat (dec3 c b1 b2) \<le> 57343)"
  shows "encodeRune (dec3 c b1 b2) = [c, b1, b2]"
proof -
  let ?a = "unat c mod 16" and ?m1 = "unat b1 mod 64" and ?m2 = "unat b2 mod 64"
  let ?u = "unat (dec3 c b1 b2)"
  have u: "?u = (?a * 64 + ?m1) * 64 + ?m2" by (simp only: unat_dec3) simp
  have b: "?a < 16" "?m1 < 64" "?m2 < 64" by simp_all
  then have "(?a * 64 + ?m1) * 64 + ?m2 \<le> 65535" by (rule bound3)
  then have le: "?u \<le> 65535" by (simp only: u)
  have ge: "2048 \<le> ?u" using assms(7) by simp
  have d0: "?u div 64 = ?a * 64 + ?m1" "?u mod 64 = ?m2"
    unfolding u using b(3) by (simp_all only: digits_low)
  have "?u div 4096 = (?u div 64) div 64"
    using div_mult2_eq [of ?u 64 64] by simp
  then have d1: "?u div 4096 = ?a" "(?u div 64) mod 64 = ?m1"
    unfolding d0 using b(2) by (simp_all only: digits_low)
  have "map unat (encodeRune (dec3 c b1 b2)) = [224 + ?a, 128 + ?m1, 128 + ?m2]"
    by (simp only: enc3 [OF ge le assms(8)] d0(2) d1)
  also have "\<dots> = map unat [c, b1, b2]"
    by (simp only: hi16 [OF assms(1,2)] c64 [OF assms(3,4)] c64 [OF assms(5,6)] list.map)
  finally show ?thesis by (rule map_unat_inj)
qed

lemma enc_dec4:
  assumes "240 \<le> unat c" "unat c < 248" "128 \<le> unat b1" "unat b1 \<le> 191"
    "128 \<le> unat b2" "unat b2 \<le> 191" "128 \<le> unat b3" "unat b3 \<le> 191"
    "65535 < unat (dec4 c b1 b2 b3)" "unat (dec4 c b1 b2 b3) \<le> 1114111"
  shows "encodeRune (dec4 c b1 b2 b3) = [c, b1, b2, b3]"
proof -
  let ?a = "unat c mod 8" and ?m1 = "unat b1 mod 64" and ?m2 = "unat b2 mod 64"
    and ?m3 = "unat b3 mod 64"
  let ?u = "unat (dec4 c b1 b2 b3)"
  have u: "?u = ((?a * 64 + ?m1) * 64 + ?m2) * 64 + ?m3" by (simp only: unat_dec4) simp
  have b: "?a < 8" "?m1 < 64" "?m2 < 64" "?m3 < 64" by simp_all
  have ge: "65536 \<le> ?u" using assms(9) by simp
  have d0: "?u div 64 = (?a * 64 + ?m1) * 64 + ?m2" "?u mod 64 = ?m3"
    unfolding u using b(4) by (simp_all only: digits_low)
  have "?u div 4096 = (?u div 64) div 64"
    using div_mult2_eq [of ?u 64 64] by simp
  then have d1: "?u div 4096 = ?a * 64 + ?m1" "(?u div 64) mod 64 = ?m2"
    unfolding d0 using b(3) by (simp_all only: digits_low)
  have "?u div 262144 = (?u div 4096) div 64"
    using div_mult2_eq [of ?u 4096 64] by simp
  then have d2: "?u div 262144 = ?a" "(?u div 4096) mod 64 = ?m1"
    unfolding d1 using b(2) by (simp_all only: digits_low)
  have "map unat (encodeRune (dec4 c b1 b2 b3)) = [240 + ?a, 128 + ?m1, 128 + ?m2, 128 + ?m3]"
    by (simp only: enc4 [OF ge assms(10)] d0(2) d1(2) d2)
  also have "\<dots> = map unat [c, b1, b2, b3]"
    by (simp only: hi8 [OF assms(1,2)] c64 [OF assms(3,4)] c64 [OF assms(5,6)]
        c64 [OF assms(7,8)] list.map)
  finally show ?thesis by (rule map_unat_inj)
qed

lemma enc_ascii: "unat (c::byte) < 128 \<Longrightarrow> encodeRune (ucast c) = [c]"
proof -
  assume a: "unat c < 128"
  have u: "unat (ucast c :: rune) = unat c" by (rule unat_ucast_rune)
  with a have "unat (ucast c :: rune) \<le> 127" by simp
  then have "encodeRune (ucast c) = [ucast (ucast c :: rune)]" by (rule enc1)
  moreover have "(ucast (ucast c :: rune) :: byte) = c"
    by (rule byte_eqI) (use a in \<open>simp add: unat_ucast_byte u\<close>)
  ultimately show ?thesis by simp
qed

lemma decoderune_cases:
  assumes "128 \<le> unat c" "decoderune (c # cs) = (r, w)"
  shows "(w = 1 \<and> r = runeError) \<or>
         (1 < w \<and> w \<le> Suc (length cs) \<and> encodeRune r = take w (c # cs) \<and> 128 \<le> unat r
            \<and> valid_rune r)"
proof -
  consider (two) "t2 \<le> c" "c < t3" | (three) "t3 \<le> c" "c < t4" | (four) "t4 \<le> c" "c < t5"
    | (other) "\<not> (t2 \<le> c \<and> c < t5)"
    unfolding word_le_nat_alt word_less_nat_alt by simp linarith
  then show ?thesis
  proof cases
    case two
    then have n: "192 \<le> unat c" "unat c < 224"
      by (simp_all add: word_le_nat_alt word_less_nat_alt)
    show ?thesis
    proof (cases cs)
      case Nil
      with assms(2) show ?thesis by (simp add: decoderune_two [OF two])
    next
      case (Cons b1 rest)
      show ?thesis
      proof (cases "cont b1 \<and> 127 < unat (dec2 c b1)")
        case False
        with assms(2) Cons show ?thesis by (auto simp: decoderune_two [OF two])
      next
        case True
        with assms(2) Cons have rw: "r = dec2 c b1" "w = 2"
          by (auto simp: decoderune_two [OF two])
        from True have b: "128 \<le> unat b1" "unat b1 \<le> 191" "127 < unat (dec2 c b1)"
          by (simp_all add: cont_unat)
        have e: "encodeRune (dec2 c b1) = [c, b1]" by (rule enc_dec2 [OF n b])
        have "unat c mod 32 < 32" "unat b1 mod 64 < 64" by simp_all
        then have "unat (dec2 c b1) \<le> 2047" unfolding unat_dec2 by linarith
        with b(3) have "valid_rune (dec2 c b1)" by (simp add: valid_rune_unat)
        with e b(3) show ?thesis by (simp add: rw Cons)
      qed
    qed
  next
    case three
    then have n: "224 \<le> unat c" "unat c < 240"
      by (simp_all add: word_le_nat_alt word_less_nat_alt)
    let ?ok = "\<lambda>b1 b2. cont b1 \<and> cont b2 \<and> 2047 < unat (dec3 c b1 b2)
             \<and> \<not> (55296 \<le> unat (dec3 c b1 b2) \<and> unat (dec3 c b1 b2) \<le> 57343)"
    show ?thesis
    proof (cases cs)
      case Nil
      with assms(2) show ?thesis by (simp add: decoderune_three [OF three])
    next
      case c1: (Cons b1 cs1)
      show ?thesis
      proof (cases cs1)
        case Nil
        with assms(2) c1 show ?thesis by (simp add: decoderune_three [OF three])
      next
        case c2: (Cons b2 rest)
        show ?thesis
        proof (cases "?ok b1 b2")
          case False
          with assms(2) c1 c2 show ?thesis by (auto simp: decoderune_three [OF three])
        next
          case True
          with assms(2) c1 c2 have rw: "r = dec3 c b1 b2" "w = 3"
            by (auto simp: decoderune_three [OF three])
          from True have b: "128 \<le> unat b1" "unat b1 \<le> 191" "128 \<le> unat b2" "unat b2 \<le> 191"
            "2047 < unat (dec3 c b1 b2)"
            "\<not> (55296 \<le> unat (dec3 c b1 b2) \<and> unat (dec3 c b1 b2) \<le> 57343)"
            by (simp_all add: cont_unat)
          have e: "encodeRune (dec3 c b1 b2) = [c, b1, b2]" by (rule enc_dec3 [OF n b])
          have "unat c mod 16 < 16" "unat b1 mod 64 < 64" "unat b2 mod 64 < 64" by simp_all
          then have "unat (dec3 c b1 b2) \<le> 65535" unfolding unat_dec3 by linarith
          with b(6) have "valid_rune (dec3 c b1 b2)" by (simp add: valid_rune_unat)
          with e b(5) show ?thesis by (simp add: rw c1 c2)
        qed
      qed
    qed
  next
    case four
    then have n: "240 \<le> unat c" "unat c < 248"
      by (simp_all add: word_le_nat_alt word_less_nat_alt)
    let ?ok = "\<lambda>b1 b2 b3. cont b1 \<and> cont b2 \<and> cont b3 \<and> 65535 < unat (dec4 c b1 b2 b3)
             \<and> unat (dec4 c b1 b2 b3) \<le> 1114111"
    show ?thesis
    proof (cases cs)
      case Nil
      with assms(2) show ?thesis by (simp add: decoderune_four [OF four])
    next
      case c1: (Cons b1 cs1)
      show ?thesis
      proof (cases cs1)
        case Nil
        with assms(2) c1 show ?thesis by (simp add: decoderune_four [OF four])
      next
        case c2: (Cons b2 cs2)
        show ?thesis
        proof (cases cs2)
          case Nil
          with assms(2) c1 c2 show ?thesis by (simp add: decoderune_four [OF four])
        next
          case c3: (Cons b3 rest)
          show ?thesis
          proof (cases "?ok b1 b2 b3")
            case False
            with assms(2) c1 c2 c3 show ?thesis by (auto simp: decoderune_four [OF four])
          next
            case True
            with assms(2) c1 c2 c3 have rw: "r = dec4 c b1 b2 b3" "w = 4"
              by (auto simp: decoderune_four [OF four])
            from True have b: "128 \<le> unat b1" "unat b1 \<le> 191" "128 \<le> unat b2"
              "unat b2 \<le> 191" "128 \<le> unat b3" "unat b3 \<le> 191"
              "65535 < unat (dec4 c b1 b2 b3)" "unat (dec4 c b1 b2 b3) \<le> 1114111"
              by (simp_all add: cont_unat)
            have e: "encodeRune (dec4 c b1 b2 b3) = [c, b1, b2, b3]"
              by (rule enc_dec4 [OF n b])
            from b(7,8) have "valid_rune (dec4 c b1 b2 b3)" by (simp add: valid_rune_unat)
            with e b(7) show ?thesis by (simp add: rw c1 c2 c3)
          qed
        qed
      qed
    qed
  next
    case other
    with assms(2) show ?thesis by (simp add: decoderune_other)
  qed
qed

text \<open>
  Well-formed UTF-8 (\<open>utf8.ValidString\<close>): no step of the \<open>range\<close> loop falls back to
  \<open>(RuneError, 1)\<close>.
\<close>

function validUTF8 :: "gostring \<Rightarrow> bool" where
  "validUTF8 [] \<longleftrightarrow> True"
| "validUTF8 (c # cs) \<longleftrightarrow>
     (if c < runeSelf then validUTF8 cs
      else snd (decoderune (c # cs)) \<noteq> 1
           \<and> validUTF8 (drop (snd (decoderune (c # cs))) (c # cs)))"
  by pat_completeness auto
termination
proof (relation "measure length")
  show "wf (measure length)" by simp
next
  fix c :: byte and cs :: gostring
  show "(cs, c # cs) \<in> measure length" by simp
next
  fix c :: byte and cs :: gostring
  have "snd (decoderune (c # cs)) \<in> {1, 2, 3, 4}" by (rule decoderune_width)
  then have "0 < snd (decoderune (c # cs))" by auto
  then show "(drop (snd (decoderune (c # cs))) (c # cs), c # cs) \<in> measure length"
    by simp
qed

declare validUTF8.simps(2) [simp del]

lemma decoderune_replacement: "decoderune (0xEF # 0xBF # 0xBD # rest) = (runeError, 3)"
proof -
  have d: "dec3 0xEF 0xBF 0xBD = runeError"
    by (rule rune_eqI) (simp add: unat_dec3)
  have "decoderune (0xEF # 0xBF # 0xBD # rest)
      = (if cont 0xBF \<and> cont 0xBD \<and> 2047 < unat (dec3 0xEF 0xBF 0xBD)
             \<and> \<not> (55296 \<le> unat (dec3 0xEF 0xBF 0xBD) \<and> unat (dec3 0xEF 0xBF 0xBD) \<le> 57343)
          then (dec3 0xEF 0xBF 0xBD, 3) else (runeError, 1))"
    by (subst decoderune_three) simp_all
  then show ?thesis by (simp add: d cont_unat)
qed

lemma encodeRune_runeError: "encodeRune runeError = [0xEF, 0xBF, 0xBD]"
  by (simp add: encodeRune_def)

lemma utf8_step:
  "(unat c < 128 \<and> runes (c # cs) = ucast c # runes cs \<and> encodeRune (ucast c) = [c]
      \<and> (validUTF8 (c # cs) \<longleftrightarrow> validUTF8 cs)) \<or>
   (128 \<le> unat c \<and> snd (decoderune (c # cs)) = 1 \<and> runes (c # cs) = runeError # runes cs
      \<and> \<not> validUTF8 (c # cs)) \<or>
   (128 \<le> unat c \<and> (\<exists>r w. decoderune (c # cs) = (r, w) \<and> 1 < w \<and> w \<le> Suc (length cs)
      \<and> runes (c # cs) = r # runes (drop w (c # cs)) \<and> encodeRune r = take w (c # cs)
      \<and> 128 \<le> unat r \<and> valid_rune r
      \<and> (validUTF8 (c # cs) \<longleftrightarrow> validUTF8 (drop w (c # cs)))))"
proof (cases "unat c < 128")
  case True
  then have "c < runeSelf" by (simp add: word_less_nat_alt)
  with True show ?thesis
    by (simp add: runes_ascii enc_ascii validUTF8.simps(2))
next
  case False
  then have h: "128 \<le> unat c" by simp
  then have n: "\<not> c < runeSelf" by (simp add: word_less_nat_alt)
  obtain r w where d: "decoderune (c # cs) = (r, w)" by (cases "decoderune (c # cs)")
  from decoderune_cases [OF h d] show ?thesis
  proof
    assume "w = 1 \<and> r = runeError"
    with h n d runes_multi [OF h d] show ?thesis
      by (simp add: validUTF8.simps(2))
  next
    assume a: "1 < w \<and> w \<le> Suc (length cs) \<and> encodeRune r = take w (c # cs) \<and> 128 \<le> unat r
      \<and> valid_rune r"
    have "validUTF8 (c # cs) \<longleftrightarrow> validUTF8 (drop w (c # cs))"
      using n d a by (simp add: validUTF8.simps(2))
    with a h d runes_multi [OF h d] show ?thesis by simp
  qed
qed

lemma runes_valid: "\<forall>r \<in> set (runes s). valid_rune r"
proof (induction s rule: length_induct)
  case (1 s)
  show ?case
  proof (cases s)
    case Nil
    then show ?thesis by simp
  next
    case (Cons c cs)
    have ih: "\<forall>r \<in> set (runes t). valid_rune r" if "length t < length s" for t
      using 1 that by blast
    from utf8_step [of c cs] show ?thesis
    proof (elim disjE conjE exE)
      assume a: "unat c < 128" "runes (c # cs) = ucast c # runes cs"
      have "unat (ucast c :: rune) = unat c" by (rule unat_ucast_rune)
      with a(1) have "valid_rune (ucast c)" by (simp add: valid_rune_unat)
      with a(2) ih [of cs] Cons show ?thesis by simp
    next
      assume "runes (c # cs) = runeError # runes cs"
      with ih [of cs] Cons show ?thesis by (simp add: valid_runeError)
    next
      fix r w
      assume a: "1 < w" "runes (c # cs) = r # runes (drop w (c # cs))" "valid_rune r"
      with ih [of "drop w (c # cs)"] Cons show ?thesis by simp
    qed
  qed
qed

lemma runes_no_dash: "dash \<notin> set s \<Longrightarrow> dashRune \<notin> set (runes s)"
proof (induction s rule: length_induct)
  case (1 s)
  show ?case
  proof (cases s)
    case Nil
    then show ?thesis by simp
  next
    case (Cons c cs)
    have ih: "dashRune \<notin> set (runes t)" if "length t < length s" "dash \<notin> set t" for t
      using 1 that by blast
    have sub: "dash \<notin> set (drop w (c # cs))" for w
      using 1(2) Cons by (auto dest: in_set_dropD)
    from utf8_step [of c cs] show ?thesis
    proof (elim disjE conjE exE)
      assume a: "unat c < 128" "runes (c # cs) = ucast c # runes cs"
      have "ucast c \<noteq> dashRune"
      proof
        assume "ucast c = dashRune"
        then have "unat (ucast c :: rune) = 45" by simp
        then have "unat c = unat dash" by (simp add: unat_ucast_rune)
        then have "c = dash" by (rule byte_eqI)
        with 1(2) Cons show False by simp
      qed
      with a(2) ih [of cs] 1(2) Cons show ?thesis by simp
    next
      assume "runes (c # cs) = runeError # runes cs"
      with ih [of cs] 1(2) Cons show ?thesis by simp
    next
      fix r w
      assume a: "1 < w" "runes (c # cs) = r # runes (drop w (c # cs))" "128 \<le> unat r"
      from a(3) have "r \<noteq> dashRune" by auto
      with a ih [of "drop w (c # cs)"] sub [of w] Cons show ?thesis by simp
    qed
  qed
qed

lemma encodeRunes_runes: "encodeRunes (runes s) = s \<longleftrightarrow> validUTF8 s"
proof (induction s rule: length_induct)
  case (1 s)
  show ?case
  proof (cases s)
    case Nil
    then show ?thesis by simp
  next
    case (Cons c cs)
    have ih: "encodeRunes (runes t) = t \<longleftrightarrow> validUTF8 t" if "length t < length s" for t
      using 1 that by blast
    from utf8_step [of c cs] show ?thesis
    proof (elim disjE conjE exE)
      assume a: "unat c < 128" "runes (c # cs) = ucast c # runes cs"
        "encodeRune (ucast c) = [c]" "validUTF8 (c # cs) \<longleftrightarrow> validUTF8 cs"
      with ih [of cs] Cons show ?thesis by simp
    next
      assume a: "128 \<le> unat c" "snd (decoderune (c # cs)) = 1"
        "runes (c # cs) = runeError # runes cs" "\<not> validUTF8 (c # cs)"
      have "encodeRunes (runes (c # cs)) \<noteq> c # cs"
      proof
        assume "encodeRunes (runes (c # cs)) = c # cs"
        then have "c # cs = 0xEF # 0xBF # 0xBD # encodeRunes (runes cs)"
          by (simp add: a(3) encodeRune_runeError)
        then have "decoderune (c # cs) = (runeError, 3)"
          by (simp only: decoderune_replacement)
        with a(2) show False by simp
      qed
      with a(4) Cons show ?thesis by simp
    next
      fix r w
      assume a: "decoderune (c # cs) = (r, w)" "1 < w" "w \<le> Suc (length cs)"
        "runes (c # cs) = r # runes (drop w (c # cs))" "encodeRune r = take w (c # cs)"
        "validUTF8 (c # cs) \<longleftrightarrow> validUTF8 (drop w (c # cs))"
      have "encodeRunes (runes (c # cs)) = take w (c # cs) @ encodeRunes (runes (drop w (c # cs)))"
        by (simp add: a(4,5))
      moreover have "c # cs = take w (c # cs) @ drop w (c # cs)" by simp
      ultimately have "encodeRunes (runes (c # cs)) = c # cs
          \<longleftrightarrow> encodeRunes (runes (drop w (c # cs))) = drop w (c # cs)"
        by (metis same_append_eq)
      with a(2,6) ih [of "drop w (c # cs)"] Cons show ?thesis by simp
    qed
  qed
qed

lemma no_replacement_valid: "runeError \<notin> set (runes s) \<Longrightarrow> validUTF8 s"
proof (induction s rule: length_induct)
  case (1 s)
  show ?case
  proof (cases s)
    case Nil
    then show ?thesis by simp
  next
    case (Cons c cs)
    have ih: "validUTF8 t" if "length t < length s" "runeError \<notin> set (runes t)" for t
      using 1 that by blast
    from utf8_step [of c cs] show ?thesis
    proof (elim disjE conjE exE)
      assume a: "runes (c # cs) = ucast c # runes cs" "validUTF8 (c # cs) \<longleftrightarrow> validUTF8 cs"
      with ih [of cs] 1(2) Cons show ?thesis by simp
    next
      assume "runes (c # cs) = runeError # runes cs"
      with 1(2) Cons show ?thesis by simp
    next
      fix r w
      assume a: "1 < w" "runes (c # cs) = r # runes (drop w (c # cs))"
        "validUTF8 (c # cs) \<longleftrightarrow> validUTF8 (drop w (c # cs))"
      with ih [of "drop w (c # cs)"] 1(2) Cons show ?thesis by simp
    qed
  qed
qed

section \<open>Parsing what \<open>String\<close> wrote, and writing what was parsed\<close>

lemma tokens_of_props: "r \<in> set (tokens_of s) \<Longrightarrow> r \<noteq> dashRune \<and> valid_rune r"
proof -
  assume "r \<in> set (tokens_of s)"
  then obtain p where p: "p \<in> set (Split s)" "r \<in> set (runes p)"
    by (auto simp: tokens_of_def)
  from p(1) have "dash \<notin> set p" by (rule Split_parts_no_dash)
  then have "dashRune \<notin> set (runes p)" by (rule runes_no_dash)
  with p(2) runes_valid [of p] show ?thesis by auto
qed

lemma EmojiID_eq: "\<lparr>tokens = ts\<rparr> = e \<longleftrightarrow> ts = tokens e"
  by (cases e) auto

lemma Parse_success:
  "ParseWithAlphabet s alphabet = (e, None) \<longleftrightarrow>
     2 \<le> length alphabet \<and> shape_ok s \<and> set (tokens_of s) \<subseteq> set alphabet \<and> tokens e = tokens_of s"
proof (cases "2 \<le> length alphabet \<and> shape_ok s")
  case False
  then show ?thesis by (auto simp: ParseWithAlphabet_eq)
next
  case True
  show ?thesis
  proof (cases "find (\<lambda>r. r \<notin> set alphabet) (tokens_of s)")
    case None
    with True show ?thesis
      using find_None_subset [of "set alphabet" "tokens_of s"]
      by (auto simp: ParseWithAlphabet_eq EmojiID_eq)
  next
    case (Some r)
    with True show ?thesis
      using find_None_subset [of "set alphabet" "tokens_of s"]
      by (auto simp: ParseWithAlphabet_eq)
  qed
qed

lemma tokens_of_String:
  assumes "wf_id e" "dashRune \<notin> set (tokens e)"
  shows "tokens_of (String e) = map written (tokens e)"
proof -
  have "tokens_of (String e) = concat (map (\<lambda>g. runes (encodeRunes g)) (groups e))"
    by (simp add: tokens_of_def Split_String [OF assms] comp_def)
  also have "\<dots> = concat (map (map written) (groups e))"
    by (simp add: runes_encodeRunes')
  also have "\<dots> = map written (concat (groups e))" by (simp add: map_concat)
  finally show ?thesis by (simp add: concat_groups [OF assms(1)])
qed

lemma shape_ok_String:
  assumes "wf_id e" "dashRune \<notin> set (tokens e)"
  shows "shape_ok (String e)"
  using group_rune_counts [OF assms(1)]
  by (simp add: shape_ok_def Split_String [OF assms] comp_def)


lemma groups_concat:
  assumes "map length gs = want"
  shows "groups \<lparr>tokens = concat gs\<rparr> = gs"
proof -
  from assms obtain g0 g1 g2 g3 g4 where gs: "gs = [g0, g1, g2, g3, g4]"
    and l: "length g0 = 8" "length g1 = 4" "length g2 = 4" "length g3 = 4" "length g4 = 12"
    by (auto simp: want_def map_eq_Cons_conv)
  show ?thesis
    unfolding gs groups_def slice_def using l by simp
qed

lemma Parse_groups:
  assumes "shape_ok s" "tokens e = tokens_of s"
  shows "groups e = map runes (Split s)" and "wf_id e"
proof -
  have m: "map length (map runes (Split s)) = want"
    using assms(1) by (simp add: shape_ok_def comp_def)
  have "e = \<lparr>tokens = concat (map runes (Split s))\<rparr>"
    using assms(2) by (simp add: tokens_of_def EmojiID_eq [symmetric])
  with groups_concat [OF m] show "groups e = map runes (Split s)" by simp
  from assms show "wf_id e" by (simp add: wf_id_def shape_ok_length)
qed

lemma rewritten_parts_no_dash:
  "p \<in> set (map (\<lambda>q. encodeRunes (runes q)) (Split s)) \<Longrightarrow> dash \<notin> set p"
  by (auto simp: dash_in_encodeRunes dest!: Split_parts_no_dash runes_no_dash)

lemma String_Parse_eq:
  assumes "shape_ok s" "tokens e = tokens_of s"
  shows "String e = s \<longleftrightarrow> (\<forall>p \<in> set (Split s). validUTF8 p)"
proof -
  let ?qs = "map (\<lambda>q. encodeRunes (runes q)) (Split s)"
  have S: "String e = joinDash ?qs"
    using Parse_groups [OF assms] by (simp add: String_joinDash comp_def)
  have ne: "?qs \<noteq> []" by (simp add: Split_not_Nil)
  have sp: "Split (joinDash ?qs) = ?qs"
    using ne rewritten_parts_no_dash by (intro Split_joinDash) blast+
  show ?thesis
  proof
    assume "String e = s"
    then have "Split s = ?qs" using S sp by simp
    then have "map (\<lambda>q. encodeRunes (runes q)) (Split s) = map (\<lambda>q. q) (Split s)" by simp
    then have "\<forall>p \<in> set (Split s). encodeRunes (runes p) = p"
      by (simp only: map_eq_conv)
    then show "\<forall>p \<in> set (Split s). validUTF8 p" by (simp add: encodeRunes_runes)
  next
    assume "\<forall>p \<in> set (Split s). validUTF8 p"
    then have "?qs = Split s"
      by (intro map_idI) (simp add: encodeRunes_runes)
    with S show "String e = s" by (simp add: joinDash_Split)
  qed
qed

section \<open>Facts about the sampler\<close>

text \<open>The 16-bit draw and the acceptance threshold, as \<open>cryptoRandIndex\<close> computes them.\<close>

definition draw16 :: "byte \<Rightarrow> byte \<Rightarrow> 32 word" where
  "draw16 b0 b1 = push_bit 8 (ucast b0) OR ucast b1"

definition limit_of :: "32 word \<Rightarrow> 32 word" where
  "limit_of un = 65536 - 65536 mod un"

lemma unat_draw16: "unat (draw16 b0 b1) = unat b0 * 256 + unat b1"
proof -
  let ?x = "ucast b0 :: 32 word" and ?y = "ucast b1 :: 32 word"
  have x: "unat ?x = unat b0" and y: "unat ?y = unat b1" by (rule unat_ucast_rune)+
  have "unat b0 < 256" by (rule unat_byte_lt)
  then have "unat ?x * 2 ^ 8 < 2 ^ 32" unfolding x by simp
  then have px: "unat (push_bit 8 ?x) = unat b0 * 2 ^ 8"
    unfolding x [symmetric] by (rule unat_push_bit_rune)
  have "unat ?y < 2 ^ 8" unfolding y using unat_byte_lt [of b1] by simp
  from unat_or_rune [OF this px] show ?thesis unfolding draw16_def px y by simp
qed

lemma uint_draw16: "uint (draw16 b0 b1) = 256 * uint b0 + uint b1"
proof -
  have "int (unat (draw16 b0 b1)) = int (unat b0 * 256 + unat b1)"
    by (simp only: unat_draw16)
  also have "\<dots> = 256 * int (unat b0) + int (unat b1)" by simp
  finally show ?thesis by (simp only: uint_nat)
qed

lemma draw16_bound: "unat (draw16 b0 b1) < 65536"
  using unat_byte_lt [of b0] unat_byte_lt [of b1] by (simp add: unat_draw16)

lemma unat_un: "0 < n \<Longrightarrow> n < 4294967296 \<Longrightarrow> unat (word_of_int n :: 32 word) = nat n"
  by (simp add: unat_eq_nat_uint uint_word_of_int take_bit_eq_mod)

lemma unat_limit_of: "unat (limit_of un) = 65536 - 65536 mod unat un"
proof -
  have m: "unat (65536 mod un) = 65536 mod unat un"
    by (simp add: unat_mod_distrib)
  have "65536 mod unat un \<le> (65536::nat)" by (rule mod_less_eq_dividend)
  then have "65536 mod un \<le> 65536"
    by (simp add: word_le_nat_alt m)
  then have "unat (65536 - 65536 mod un) = unat (65536 :: 32 word) - unat (65536 mod un)"
    by (rule unat_sub)
  then show ?thesis by (simp add: limit_of_def m)
qed

lemma accept_iff:
  "draw16 b0 b1 < limit_of un \<longleftrightarrow> unat b0 * 256 + unat b1 < 65536 - 65536 mod unat un"
  by (simp add: word_less_nat_alt unat_draw16 unat_limit_of)

lemma index_eq: "uint (draw16 b0 b1 mod un) = int ((unat b0 * 256 + unat b1) mod unat un)"
  by (simp only: uint_nat unat_mod_distrib unat_draw16)

lemma limit_ge: "0 < n \<Longrightarrow> n \<le> 65536 \<Longrightarrow> n \<le> 65536 - 65536 mod (n::nat)"
proof -
  assume a: "0 < n" "n \<le> 65536"
  have "65536 - 65536 mod n = (65536 div n) * n" by (simp add: minus_mod_eq_div_mult)
  moreover have "n div n \<le> 65536 div n" using a(2) by (rule div_le_mono)
  then have "1 \<le> 65536 div n" using a(1) by simp
  ultimately show ?thesis by simp
qed

lemma limit_zero: "65536 < n \<Longrightarrow> 65536 - 65536 mod (n::nat) = 0"
  by simp

lemma randLoop_fail:
  "shd src = ReadFail \<Longrightarrow> randLoop un limit src = Some ((0, Some ErrEntropyFailure), stl src)"
  by (subst randLoop.simps) simp

lemma randLoop_accept:
  "shd src = ReadBytes b0 b1 \<Longrightarrow> draw16 b0 b1 < limit \<Longrightarrow>
   randLoop un limit src = Some ((uint (draw16 b0 b1 mod un), None), stl src)"
  by (subst randLoop.simps) (simp add: draw16_def)

lemma randLoop_reject:
  "shd src = ReadBytes b0 b1 \<Longrightarrow> \<not> draw16 b0 b1 < limit \<Longrightarrow>
   randLoop un limit src = randLoop un limit (stl src)"
  by (subst randLoop.simps) (simp add: draw16_def)

definition accepts :: "32 word \<Rightarrow> rand_read \<Rightarrow> bool" where
  "accepts un r = (case r of ReadFail \<Rightarrow> False | ReadBytes b0 b1 \<Rightarrow> draw16 b0 b1 < limit_of un)"

definition rejects :: "32 word \<Rightarrow> rand_read \<Rightarrow> bool" where
  "rejects un r = (case r of ReadFail \<Rightarrow> False | ReadBytes b0 b1 \<Rightarrow> \<not> draw16 b0 b1 < limit_of un)"

lemma randLoop_skip:
  "\<forall>r \<in> set pre. rejects un r \<Longrightarrow>
   randLoop un (limit_of un) (pre @- s) = randLoop un (limit_of un) s"
proof (induction pre)
  case Nil
  show ?case by simp
next
  case (Cons r pre)
  from Cons.prems obtain b0 b1 where r: "r = ReadBytes b0 b1" "\<not> draw16 b0 b1 < limit_of un"
    by (cases r) (auto simp: rejects_def)
  have "randLoop un (limit_of un) ((r # pre) @- s) = randLoop un (limit_of un) (pre @- s)"
    using randLoop_reject [of "(r # pre) @- s" b0 b1 "limit_of un" un] r by simp
  with Cons show ?case by simp
qed

lemma randLoop_Some_not_rejected:
  assumes "randLoop un l s = Some y"
  shows "l = limit_of un \<longrightarrow> \<not> (\<forall>k. rejects un (s !! k))"
proof (rule randLoop.raw_induct
    [where P = "\<lambda>un l s y. l = limit_of un \<longrightarrow> \<not> (\<forall>k. rejects un (s !! k))", OF _ assms])
  fix f :: "32 word \<Rightarrow> 32 word \<Rightarrow> entropy \<Rightarrow> (int result \<times> entropy) option"
    and un limit :: "32 word" and src :: entropy and y :: "int result \<times> entropy"
  assume ih: "\<And>un l s y. f un l s = Some y \<Longrightarrow>
      l = limit_of un \<longrightarrow> \<not> (\<forall>k. rejects un (s !! k))"
    and body: "(case shd src of ReadFail \<Rightarrow> Some ((0, Some ErrEntropyFailure), stl src)
      | ReadBytes b0 b1 \<Rightarrow>
          let v = push_bit 8 (ucast b0) OR ucast b1
          in if v < limit then Some ((uint (v mod un), None), stl src)
             else f un limit (stl src)) = Some y"
  show "limit = limit_of un \<longrightarrow> \<not> (\<forall>k. rejects un (src !! k))"
  proof (intro impI notI)
    assume e: "limit = limit_of un" and all: "\<forall>k. rejects un (src !! k)"
    from all have "rejects un (src !! 0)" by blast
    then obtain b0 b1 where r: "shd src = ReadBytes b0 b1" "\<not> draw16 b0 b1 < limit_of un"
      by (cases "shd src") (auto simp: rejects_def)
    from body r e have "f un (limit_of un) (stl src) = Some y"
      by (simp add: draw16_def)
    from ih [OF this] have "\<not> (\<forall>k. rejects un (stl src !! k))" by simp
    moreover from all have "\<forall>k. rejects un (stl src !! k)"
      by (metis snth.simps(2))
    ultimately show False by contradiction
  qed
qed

lemma randLoop_never:
  assumes "\<forall>k. rejects un (src !! k)"
  shows "randLoop un (limit_of un) src = None"
proof (cases "randLoop un (limit_of un) src")
  case None
  then show ?thesis .
next
  case (Some y)
  from randLoop_Some_not_rejected [OF this] assms show ?thesis by simp
qed

lemma cryptoRandIndex_loop:
  "0 < n \<Longrightarrow> (word_of_int n :: 32 word) \<noteq> 0 \<Longrightarrow>
   cryptoRandIndex n src = randLoop (word_of_int n) (limit_of (word_of_int n)) src"
  by (simp add: cryptoRandIndex_def limit_of_def Let_def)

text \<open>
  The reference sampler, in the words of the specification: read 2 random bytes, combine
  them big-endian into \<open>v\<close>, compute \<open>limit = 65536 - (65536 mod n)\<close>, accept \<open>v mod n\<close> if
  \<open>v < limit\<close>, otherwise discard and retry.
\<close>

partial_function (option) spec_draw_index :: "int \<Rightarrow> entropy \<Rightarrow> (int result \<times> entropy) option" where
  "spec_draw_index n src =
     (case shd src of
        ReadFail \<Rightarrow> Some ((0, Some ErrEntropyFailure), stl src)
      | ReadBytes b0 b1 \<Rightarrow>
          (let v = 256 * uint b0 + uint b1;
               limit = 65536 - 65536 mod n
           in if v < limit then Some ((v mod n, None), stl src)
              else spec_draw_index n (stl src)))"

lemma code_vs_spec_draw:
  assumes "0 < n" "n \<le> 65536"
  shows "draw16 b0 b1 < limit_of (word_of_int n) \<longleftrightarrow> 256 * uint b0 + uint b1 < 65536 - 65536 mod n"
    and "uint (draw16 b0 b1 mod word_of_int n) = (256 * uint b0 + uint b1) mod n"
proof -
  let ?un = "word_of_int n :: 32 word"
  let ?v = "unat b0 * 256 + unat b1"
  have un: "unat ?un = nat n" using assms by (intro unat_un) simp_all
  have v: "int ?v = 256 * uint b0 + uint b1" by (simp only: uint_nat)
  have n: "int (nat n) = n" using assms by simp
  have "65536 mod nat n \<le> (65536::nat)" by (rule mod_less_eq_dividend)
  then have "int (65536 - 65536 mod nat n) = 65536 - int (65536 mod nat n)" by simp
  also have "\<dots> = 65536 - 65536 mod n" by (simp only: zmod_int n) simp
  finally have l: "int (65536 - 65536 mod nat n) = 65536 - 65536 mod n" .
  have "draw16 b0 b1 < limit_of ?un \<longleftrightarrow> ?v < 65536 - 65536 mod nat n"
    by (simp only: accept_iff un)
  also have "\<dots> \<longleftrightarrow> int ?v < int (65536 - 65536 mod nat n)" by (simp only: of_nat_less_iff)
  finally show "draw16 b0 b1 < limit_of ?un \<longleftrightarrow> 256 * uint b0 + uint b1 < 65536 - 65536 mod n"
    by (simp only: v l)
  have "uint (draw16 b0 b1 mod ?un) = int (?v mod nat n)" by (simp only: index_eq un)
  also have "\<dots> = int ?v mod n" by (simp only: zmod_int n)
  finally show "uint (draw16 b0 b1 mod ?un) = (256 * uint b0 + uint b1) mod n" by (simp only: v)
qed

lemma spec_draw_index_fail:
  "shd src = ReadFail \<Longrightarrow> spec_draw_index n src = Some ((0, Some ErrEntropyFailure), stl src)"
  by (subst spec_draw_index.simps) simp

lemma spec_draw_index_accept:
  "shd src = ReadBytes b0 b1 \<Longrightarrow> 256 * uint b0 + uint b1 < 65536 - 65536 mod n \<Longrightarrow>
   spec_draw_index n src = Some (((256 * uint b0 + uint b1) mod n, None), stl src)"
  by (subst spec_draw_index.simps) simp

lemma spec_draw_index_reject:
  "shd src = ReadBytes b0 b1 \<Longrightarrow> \<not> 256 * uint b0 + uint b1 < 65536 - 65536 mod n \<Longrightarrow>
   spec_draw_index n src = spec_draw_index n (stl src)"
  by (subst spec_draw_index.simps) simp

lemma randLoop_imp_spec:
  assumes n: "0 < n" "n \<le> 65536"
    and r: "randLoop un l s = Some y"
  shows "un = word_of_int n \<and> l = limit_of un \<longrightarrow> spec_draw_index n s = Some y"
proof (rule randLoop.raw_induct
    [where P = "\<lambda>un l s y. un = word_of_int n \<and> l = limit_of un \<longrightarrow> spec_draw_index n s = Some y",
      OF _ r])
  fix f :: "32 word \<Rightarrow> 32 word \<Rightarrow> entropy \<Rightarrow> (int result \<times> entropy) option"
    and un limit :: "32 word" and src :: entropy and y :: "int result \<times> entropy"
  assume ih: "\<And>un l s y. f un l s = Some y \<Longrightarrow>
      un = word_of_int n \<and> l = limit_of un \<longrightarrow> spec_draw_index n s = Some y"
    and body: "(case shd src of ReadFail \<Rightarrow> Some ((0, Some ErrEntropyFailure), stl src)
      | ReadBytes b0 b1 \<Rightarrow>
          let v = push_bit 8 (ucast b0) OR ucast b1
          in if v < limit then Some ((uint (v mod un), None), stl src)
             else f un limit (stl src)) = Some y"
  show "un = word_of_int n \<and> limit = limit_of un \<longrightarrow> spec_draw_index n src = Some y"
  proof
    assume e: "un = word_of_int n \<and> limit = limit_of un"
    show "spec_draw_index n src = Some y"
    proof (cases "shd src")
      case ReadFail
      with body show ?thesis by (simp add: spec_draw_index_fail)
    next
      case (ReadBytes b0 b1)
      show ?thesis
      proof (cases "draw16 b0 b1 < limit_of (word_of_int n)")
        case True
        with body ReadBytes e have "y = ((uint (draw16 b0 b1 mod word_of_int n), None), stl src)"
          by (simp add: draw16_def)
        with True ReadBytes show ?thesis
          by (simp add: spec_draw_index_accept code_vs_spec_draw [OF n])
      next
        case False
        with body ReadBytes e have "f (word_of_int n) (limit_of (word_of_int n)) (stl src) = Some y"
          by (simp add: draw16_def)
        from ih [OF this] have "spec_draw_index n (stl src) = Some y" by simp
        with False ReadBytes show ?thesis
          by (simp add: spec_draw_index_reject code_vs_spec_draw [OF n])
      qed
    qed
  qed
qed

lemma spec_imp_randLoop:
  assumes n: "0 < n" "n \<le> 65536"
    and r: "spec_draw_index m s = Some y"
  shows "m = n \<longrightarrow> randLoop (word_of_int n) (limit_of (word_of_int n)) s = Some y"
proof (rule spec_draw_index.raw_induct
    [where P = "\<lambda>m s y. m = n \<longrightarrow> randLoop (word_of_int n) (limit_of (word_of_int n)) s = Some y",
      OF _ r])
  fix f :: "int \<Rightarrow> entropy \<Rightarrow> (int result \<times> entropy) option"
    and m :: int and src :: entropy and y :: "int result \<times> entropy"
  assume ih: "\<And>m s y. f m s = Some y \<Longrightarrow>
      m = n \<longrightarrow> randLoop (word_of_int n) (limit_of (word_of_int n)) s = Some y"
    and body: "(case shd src of ReadFail \<Rightarrow> Some ((0, Some ErrEntropyFailure), stl src)
      | ReadBytes b0 b1 \<Rightarrow>
          let v = 256 * uint b0 + uint b1; limit = 65536 - 65536 mod m
          in if v < limit then Some ((v mod m, None), stl src) else f m (stl src)) = Some y"
  show "m = n \<longrightarrow> randLoop (word_of_int n) (limit_of (word_of_int n)) src = Some y"
  proof
    assume e: "m = n"
    show "randLoop (word_of_int n) (limit_of (word_of_int n)) src = Some y"
    proof (cases "shd src")
      case ReadFail
      with body show ?thesis by (simp add: randLoop_fail)
    next
      case (ReadBytes b0 b1)
      show ?thesis
      proof (cases "256 * uint b0 + uint b1 < 65536 - 65536 mod n")
        case True
        with body ReadBytes e have "y = (((256 * uint b0 + uint b1) mod n, None), stl src)"
          by simp
        with True ReadBytes show ?thesis
          using randLoop_accept [of src b0 b1 "limit_of (word_of_int n)" "word_of_int n"]
          by (simp add: code_vs_spec_draw [OF n])
      next
        case False
        with body ReadBytes e have "f n (stl src) = Some y" by simp
        from ih [OF this]
        have "randLoop (word_of_int n) (limit_of (word_of_int n)) (stl src) = Some y" by simp
        with False ReadBytes show ?thesis
          using randLoop_reject [of src b0 b1 "limit_of (word_of_int n)" "word_of_int n"]
          by (simp add: code_vs_spec_draw [OF n])
      qed
    qed
  qed
qed

lemma un_nonzero: "0 < n \<Longrightarrow> n < 4294967296 \<Longrightarrow> (word_of_int n :: 32 word) \<noteq> 0"
proof
  assume a: "0 < n" "n < 4294967296" and z: "(word_of_int n :: 32 word) = 0"
  from unat_un [OF a] z show False using a by simp
qed

lemma cryptoRandIndex_refines:
  assumes "0 < n" "n \<le> 65536"
  shows "cryptoRandIndex n src = spec_draw_index n src"
proof -
  have nz: "(word_of_int n :: 32 word) \<noteq> 0" using assms by (intro un_nonzero) simp_all
  have c: "cryptoRandIndex n src = randLoop (word_of_int n) (limit_of (word_of_int n)) src"
    using assms(1) nz by (rule cryptoRandIndex_loop)
  show ?thesis
  proof (cases "spec_draw_index n src")
    case (Some y)
    from spec_imp_randLoop [OF assms this] c Some show ?thesis by simp
  next
    case None
    show ?thesis
    proof (cases "randLoop (word_of_int n) (limit_of (word_of_int n)) src")
      case None
      with c \<open>spec_draw_index n src = None\<close> show ?thesis by simp
    next
      case (Some y)
      from randLoop_imp_spec [OF assms this] \<open>spec_draw_index n src = None\<close>
      show ?thesis by simp
    qed
  qed
qed

lemma randLoop_result:
  assumes r: "randLoop un l s = Some y"
  shows "un \<noteq> 0 \<longrightarrow> (snd (fst y) = None \<and> 0 \<le> fst (fst y) \<and> fst (fst y) < uint un)
            \<or> fst y = (0, Some ErrEntropyFailure)"
proof (rule randLoop.raw_induct
    [where P = "\<lambda>un l s y. un \<noteq> 0 \<longrightarrow> (snd (fst y) = None \<and> 0 \<le> fst (fst y) \<and> fst (fst y) < uint un)
            \<or> fst y = (0, Some ErrEntropyFailure)", OF _ r])
  fix f :: "32 word \<Rightarrow> 32 word \<Rightarrow> entropy \<Rightarrow> (int result \<times> entropy) option"
    and un limit :: "32 word" and src :: entropy and y :: "int result \<times> entropy"
  assume ih: "\<And>un l s y. f un l s = Some y \<Longrightarrow>
      un \<noteq> 0 \<longrightarrow> (snd (fst y) = None \<and> 0 \<le> fst (fst y) \<and> fst (fst y) < uint un)
            \<or> fst y = (0, Some ErrEntropyFailure)"
    and body: "(case shd src of ReadFail \<Rightarrow> Some ((0, Some ErrEntropyFailure), stl src)
      | ReadBytes b0 b1 \<Rightarrow>
          let v = push_bit 8 (ucast b0) OR ucast b1
          in if v < limit then Some ((uint (v mod un), None), stl src)
             else f un limit (stl src)) = Some y"
  show "un \<noteq> 0 \<longrightarrow> (snd (fst y) = None \<and> 0 \<le> fst (fst y) \<and> fst (fst y) < uint un)
            \<or> fst y = (0, Some ErrEntropyFailure)"
  proof
    assume nz: "un \<noteq> 0"
    then have pos: "0 < uint un" by (simp add: word_greater_zero_iff [symmetric] word_less_def)
    show "(snd (fst y) = None \<and> 0 \<le> fst (fst y) \<and> fst (fst y) < uint un)
            \<or> fst y = (0, Some ErrEntropyFailure)"
    proof (cases "shd src")
      case ReadFail
      with body show ?thesis by auto
    next
      case (ReadBytes b0 b1)
      show ?thesis
      proof (cases "draw16 b0 b1 < limit")
        case True
        with body ReadBytes have "y = ((uint (draw16 b0 b1 mod un), None), stl src)"
          by (simp add: draw16_def)
        moreover have "uint (draw16 b0 b1 mod un) < uint un"
          using pos by (simp add: uint_mod)
        ultimately show ?thesis by simp
      next
        case False
        with body ReadBytes have "f un limit (stl src) = Some y" by (simp add: draw16_def)
        from ih [OF this] nz show ?thesis by simp
      qed
    qed
  qed
qed

lemma uint_un_le: "0 < n \<Longrightarrow> uint (word_of_int n :: 32 word) \<le> n"
proof -
  assume "0 < n"
  have "uint (word_of_int n :: 32 word) = n mod 2 ^ 32" by (simp add: uint_word_of_int)
  also have "\<dots> \<le> n" using \<open>0 < n\<close> by (intro zmod_le_nonneg_dividend) simp
  finally show ?thesis .
qed

lemma cryptoRandIndex_result:
  assumes "0 < n" "cryptoRandIndex n src = Some ((idx, err), src')"
  shows "(err = None \<and> 0 \<le> idx \<and> idx < n) \<or> (idx = 0 \<and> err = Some ErrEntropyFailure)
         \<or> (idx = 0 \<and> err = Some RuntimePanic \<and> (word_of_int n :: 32 word) = 0 \<and> src' = src)"
proof (cases "(word_of_int n :: 32 word) = 0")
  case True
  with assms show ?thesis by (simp add: cryptoRandIndex_def Let_def)
next
  case False
  with assms have "randLoop (word_of_int n) (limit_of (word_of_int n)) src = Some ((idx, err), src')"
    by (simp add: cryptoRandIndex_loop)
  from randLoop_result [OF this] False uint_un_le [OF assms(1)] show ?thesis by auto
qed

text \<open>
  The reference sampler repeated \<open>count\<close> times: the first failing draw ends the whole
  operation and the indices drawn so far are dropped.
\<close>

primrec spec_draw_indices ::
    "int \<Rightarrow> nat \<Rightarrow> entropy \<Rightarrow> ((int list \<times> error option) \<times> entropy) option" where
  "spec_draw_indices n 0 src = Some (([], None), src)"
| "spec_draw_indices n (Suc k) src =
     (case spec_draw_index n src of
        None \<Rightarrow> None
      | Some ((i, err), src') \<Rightarrow>
          (case err of
             Some e \<Rightarrow> Some (([], Some e), src')
           | None \<Rightarrow>
               (case spec_draw_indices n k src' of
                  None \<Rightarrow> None
                | Some ((is, err'), src'') \<Rightarrow>
                    (case err' of
                       Some e \<Rightarrow> Some (([], Some e), src'')
                     | None \<Rightarrow> Some ((i # is, None), src'')))))"

text \<open>
  Generation in the words of the specification: the alphabet size is checked, 32 indices
  are drawn, and the indices are mapped into alphabet symbols.
\<close>

definition spec_new :: "rune list \<Rightarrow> entropy \<Rightarrow> (EmojiID result \<times> entropy) option" where
  "spec_new alphabet src =
     (if length alphabet < 2 then Some ((zeroID, Some ErrAlphabetTooSmall), src)
      else
        (case spec_draw_indices (int (length alphabet)) 32 src of
           None \<Rightarrow> None
         | Some ((is, err), src') \<Rightarrow>
             (case err of
                Some e \<Rightarrow> Some ((zeroID, Some e), src')
              | None \<Rightarrow> Some ((\<lparr>tokens = map (\<lambda>i. alphabet ! nat i) is\<rparr>, None), src'))))"

lemma fillTokens_done: "\<not> i < 32 \<Longrightarrow> fillTokens alphabet i eid src = Some ((eid, None), src)"
  by (subst fillTokens.simps) simp

lemma fillTokens_step:
  "i < 32 \<Longrightarrow>
   fillTokens alphabet i eid src =
     (case cryptoRandIndex (int (length alphabet)) src of
        None \<Rightarrow> None
      | Some ((idx, err), src') \<Rightarrow>
          if err \<noteq> None then Some ((zeroID, err), src')
          else if idx < 0 \<or> int (length alphabet) \<le> idx
            then Some ((zeroID, Some RuntimePanic), src')
          else fillTokens alphabet (i + 1)
                 (eid\<lparr>tokens := (tokens eid)[i := alphabet ! nat idx]\<rparr>) src')"
  by (subst fillTokens.simps) simp

lemma fillTokens_refines:
  assumes n: "0 < length alphabet" "length alphabet \<le> 65536"
  shows "k = 32 - i \<Longrightarrow> i \<le> 32 \<Longrightarrow> length (tokens eid) = 32 \<Longrightarrow>
   fillTokens alphabet i eid src =
     (case spec_draw_indices (int (length alphabet)) k src of
        None \<Rightarrow> None
      | Some ((is, err), src') \<Rightarrow>
          (case err of
             Some e \<Rightarrow> Some ((zeroID, Some e), src')
           | None \<Rightarrow>
               Some ((\<lparr>tokens = take i (tokens eid) @ map (\<lambda>j. alphabet ! nat j) is\<rparr>, None),
                     src')))"
proof (induction k arbitrary: i eid src)
  case 0
  then have "i = 32" by simp
  with 0 show ?case by (simp add: fillTokens_done EmojiID_eq)
next
  case (Suc k)
  then have i: "i < 32" "k = 32 - (i + 1)" "i + 1 \<le> 32" by simp_all
  have c: "cryptoRandIndex (int (length alphabet)) src = spec_draw_index (int (length alphabet)) src"
    using n by (intro cryptoRandIndex_refines) simp_all
  show ?case
  proof (cases "spec_draw_index (int (length alphabet)) src")
    case None
    with c i(1) show ?thesis by (simp add: fillTokens_step)
  next
    case (Some y)
    obtain idx err src' where y: "y = ((idx, err), src')" by (cases y) auto
    show ?thesis
    proof (cases err)
      case (Some e)
      with \<open>spec_draw_index (int (length alphabet)) src = Some y\<close> y c i(1) show ?thesis
        by (simp add: fillTokens_step)
    next
      case None
      let ?eid = "eid\<lparr>tokens := (tokens eid)[i := alphabet ! nat idx]\<rparr>"
      have l: "length (tokens ?eid) = 32" using Suc.prems(3) by simp
      have t: "take (i + 1) (tokens ?eid) = take i (tokens eid) @ [alphabet ! nat idx]"
        using i(1) Suc.prems(3) by (simp add: take_Suc_conv_app_nth)
      have "cryptoRandIndex (int (length alphabet)) src = Some ((idx, None), src')"
        using \<open>spec_draw_index (int (length alphabet)) src = Some y\<close> y c None by simp
      from cryptoRandIndex_result [OF _ this] n(1)
      have r: "0 \<le> idx" "idx < int (length alphabet)" by simp_all
      have s: "fillTokens alphabet i eid src = fillTokens alphabet (i + 1) ?eid src'"
        using \<open>spec_draw_index (int (length alphabet)) src = Some y\<close> y c i(1) None r
        by (simp add: fillTokens_step)
      show ?thesis
        unfolding s Suc.IH [OF i(2,3) l] t
        using \<open>spec_draw_index (int (length alphabet)) src = Some y\<close> y None
        by (simp split: option.split prod.split)
    qed
  qed
qed

lemma NewWithAlphabet_refines:
  assumes "length alphabet \<le> 65536"
  shows "NewWithAlphabet alphabet src = spec_new alphabet src"
proof (cases "length alphabet < 2")
  case True
  then show ?thesis by (simp add: NewWithAlphabet_def spec_new_def)
next
  case False
  then have n: "0 < length alphabet" by (cases alphabet) simp_all
  have z: "length (tokens zeroID) = 32" by (simp add: zeroID_def)
  from False show ?thesis
    by (simp add: NewWithAlphabet_def spec_new_def fillTokens_refines [OF n assms refl _ z]
        split: option.split prod.split)
qed

lemma fillTokens_error:
  assumes "0 < length alphabet"
  shows "k = 32 - i \<Longrightarrow> fillTokens alphabet i eid src = Some ((e, Some err), src') \<Longrightarrow>
         e = zeroID \<and> (err = ErrEntropyFailure \<or> err = RuntimePanic)"
proof (induction k arbitrary: i eid src)
  case 0
  then have "\<not> i < 32" by simp
  with 0 show ?case by (simp add: fillTokens_done)
next
  case (Suc k)
  then have i: "i < 32" "k = 32 - (i + 1)" by simp_all
  from Suc.prems(2) i(1) obtain idx er s1 where
    c: "cryptoRandIndex (int (length alphabet)) src = Some ((idx, er), s1)"
    by (auto simp: fillTokens_step split: option.splits)
  have n: "0 < int (length alphabet)" using assms by simp
  show ?case
  proof (cases er)
    case None
    show ?thesis
    proof (cases "idx < 0 \<or> int (length alphabet) \<le> idx")
      case True
      with Suc.prems(2) i(1) c None show ?thesis by (simp add: fillTokens_step)
    next
      case False
      with Suc.prems(2) i(1) c None
      have "fillTokens alphabet (i + 1) (eid\<lparr>tokens := (tokens eid)[i := alphabet ! nat idx]\<rparr>) s1
          = Some ((e, Some err), src')"
        by (simp add: fillTokens_step)
      from Suc.IH [OF i(2) this] show ?thesis .
    qed
  next
    case (Some x)
    with Suc.prems(2) i(1) c have "e = zeroID" "err = x" by (simp_all add: fillTokens_step)
    with cryptoRandIndex_result [OF n c] Some show ?thesis by auto
  qed
qed

lemma NewWithAlphabet_error:
  assumes "NewWithAlphabet alphabet src = Some ((e, Some err), src')"
  shows "e = zeroID"
    and "err = ErrAlphabetTooSmall \<longleftrightarrow> length alphabet < 2"
proof -
  show "e = zeroID"
  proof (cases "length alphabet < 2")
    case True
    with assms show ?thesis by (simp add: NewWithAlphabet_def)
  next
    case False
    then have "0 < length alphabet" by (cases alphabet) simp_all
    from fillTokens_error [OF this refl, of 0 zeroID src e err src'] assms False
    show ?thesis by (simp add: NewWithAlphabet_def)
  qed
  show "err = ErrAlphabetTooSmall \<longleftrightarrow> length alphabet < 2"
  proof (cases "length alphabet < 2")
    case True
    with assms show ?thesis by (simp add: NewWithAlphabet_def)
  next
    case False
    then have "0 < length alphabet" by (cases alphabet) simp_all
    from fillTokens_error [OF this refl, of 0 zeroID src e err src'] assms False
    show ?thesis by (auto simp: NewWithAlphabet_def)
  qed
qed

lemma cryptoRandIndex_fail:
  "0 < n \<Longrightarrow> (word_of_int n :: 32 word) \<noteq> 0 \<Longrightarrow>
   cryptoRandIndex n (ReadFail ## rest) = Some ((0, Some ErrEntropyFailure), rest)"
  by (simp add: cryptoRandIndex_loop randLoop_fail)

lemma cryptoRandIndex_accept:
  "0 < n \<Longrightarrow> (word_of_int n :: 32 word) \<noteq> 0 \<Longrightarrow> accepts (word_of_int n) r \<Longrightarrow>
   \<exists>idx. cryptoRandIndex n (r ## rest) = Some ((idx, None), rest) \<and> 0 \<le> idx \<and> idx < n"
proof -
  assume a: "0 < n" "(word_of_int n :: 32 word) \<noteq> 0" "accepts (word_of_int n) r"
  from a(3) obtain b0 b1 where r: "r = ReadBytes b0 b1"
    "draw16 b0 b1 < limit_of (word_of_int n)"
    by (cases r) (auto simp: accepts_def)
  let ?idx = "uint (draw16 b0 b1 mod (word_of_int n :: 32 word))"
  have c: "cryptoRandIndex n (r ## rest) = Some ((?idx, None), rest)"
    using a(1,2) r randLoop_accept [of "r ## rest" b0 b1 "limit_of (word_of_int n)" "word_of_int n"]
    by (simp add: cryptoRandIndex_loop)
  from cryptoRandIndex_result [OF a(1) c] have "0 \<le> ?idx \<and> ?idx < n" by simp
  with c show ?thesis by blast
qed

lemma cryptoRandIndex_reject:
  "0 < n \<Longrightarrow> (word_of_int n :: 32 word) \<noteq> 0 \<Longrightarrow> rejects (word_of_int n) r \<Longrightarrow>
   cryptoRandIndex n (r ## rest) = cryptoRandIndex n rest"
proof -
  assume a: "0 < n" "(word_of_int n :: 32 word) \<noteq> 0" "rejects (word_of_int n) r"
  from randLoop_skip [of "[r]" "word_of_int n" rest] a(3)
  show ?thesis using a(1,2) by (simp add: cryptoRandIndex_loop)
qed

lemma accepts_or_rejects: "r \<noteq> ReadFail \<Longrightarrow> accepts un r \<or> rejects un r"
  by (cases r) (auto simp: accepts_def rejects_def)

lemma not_both: "accepts un r \<Longrightarrow> \<not> rejects un r"
  by (cases r) (auto simp: accepts_def rejects_def)

lemma fillTokens_fail:
  assumes n: "0 < int (length alphabet)" "(word_of_int (int (length alphabet)) :: 32 word) \<noteq> 0"
  shows "\<forall>r \<in> set pre. r \<noteq> ReadFail \<Longrightarrow>
         i + length (filter (accepts (word_of_int (int (length alphabet)))) pre) < 32 \<Longrightarrow>
         fillTokens alphabet i eid (pre @- ReadFail ## rest)
           = Some ((zeroID, Some ErrEntropyFailure), rest)"
proof (induction pre arbitrary: i eid)
  case Nil
  then have "i < 32" by simp
  then show ?case by (simp add: fillTokens_step cryptoRandIndex_fail [OF n])
next
  case (Cons r pre)
  let ?un = "word_of_int (int (length alphabet)) :: 32 word"
  from Cons.prems have i: "i < 32" and r: "r \<noteq> ReadFail"
    and pre: "\<forall>r \<in> set pre. r \<noteq> ReadFail" by simp_all
  show ?case
  proof (cases "accepts ?un r")
    case True
    from cryptoRandIndex_accept [OF n True, of "pre @- ReadFail ## rest"] obtain idx where
      c: "cryptoRandIndex (int (length alphabet)) (r ## pre @- ReadFail ## rest)
          = Some ((idx, None), pre @- ReadFail ## rest)"
      and b: "0 \<le> idx" "idx < int (length alphabet)" by blast
    from Cons.prems(2) True have "(i + 1) + length (filter (accepts ?un) pre) < 32" by simp
    from Cons.IH [OF pre this] i c b show ?thesis by (simp add: fillTokens_step)
  next
    case False
    with accepts_or_rejects [OF r, of ?un] have rej: "rejects ?un r" by simp
    from Cons.prems(2) False have "i + length (filter (accepts ?un) pre) < 32" by simp
    from Cons.IH [OF pre this] i cryptoRandIndex_reject [OF n rej, of "pre @- ReadFail ## rest"]
    show ?thesis by (simp add: fillTokens_step)
  qed
qed

text \<open>The test double of the specification: bytes that map to the indices 0, 1, 0, 1, ...\<close>

definition alternating :: entropy where
  "alternating = cycle [ReadBytes 0 0, ReadBytes 0 1]"

lemma alternating_unfold: "alternating = ReadBytes 0 0 ## ReadBytes 0 1 ## alternating"
  unfolding alternating_def by (subst cycle_decomp) simp_all

lemma spec_draw_index_two:
  "spec_draw_index 2 (ReadBytes 0 0 ## s) = Some ((0, None), s)"
  "spec_draw_index 2 (ReadBytes 0 1 ## s) = Some ((1, None), s)"
  by (simp_all add: spec_draw_index.simps)

lemma spec_draw_indices_alternating:
  "spec_draw_indices 2 (2 * k) alternating = Some ((concat (replicate k [0, 1]), None), alternating)"
proof (induction k)
  case 0
  show ?case by simp
next
  case (Suc k)
  have "spec_draw_indices 2 (Suc (Suc (2 * k))) (ReadBytes 0 0 ## ReadBytes 0 1 ## alternating)
      = Some ((0 # 1 # concat (replicate k [0, 1]), None), alternating)"
    by (simp add: spec_draw_index_two Suc.IH)
  then show ?case by (simp add: alternating_unfold [symmetric])
qed

lemma spec_new_alternating:
  "spec_new [0x41, 0x42] alternating
   = Some ((\<lparr>tokens = [0x41, 0x42, 0x41, 0x42, 0x41, 0x42, 0x41, 0x42, 0x41, 0x42, 0x41, 0x42,
          0x41, 0x42, 0x41, 0x42, 0x41, 0x42, 0x41, 0x42, 0x41, 0x42, 0x41, 0x42, 0x41, 0x42,
          0x41, 0x42, 0x41, 0x42, 0x41, 0x42]\<rparr>, None), alternating)"
proof -
  have "spec_draw_indices 2 32 alternating
      = Some ((concat (replicate 16 [0, 1]), None), alternating)"
    using spec_draw_indices_alternating [of 16] by simp
  then show ?thesis by (simp add: spec_new_def eval_nat_numeral)
qed

lemma spec_new_dash_alternating:
  "spec_new [0x2D, 0x41] alternating
   = Some ((\<lparr>tokens = [0x2D, 0x41, 0x2D, 0x41, 0x2D, 0x41, 0x2D, 0x41, 0x2D, 0x41, 0x2D, 0x41,
          0x2D, 0x41, 0x2D, 0x41, 0x2D, 0x41, 0x2D, 0x41, 0x2D, 0x41, 0x2D, 0x41,
          0x2D, 0x41, 0x2D, 0x41, 0x2D, 0x41, 0x2D, 0x41]\<rparr>, None), alternating)"
proof -
  have "spec_draw_indices 2 32 alternating
      = Some ((concat (replicate 16 [0, 1]), None), alternating)"
    using spec_draw_indices_alternating [of 16] by simp
  then show ?thesis by (simp add: spec_new_def eval_nat_numeral)
qed

lemma uint_limit_of:
  assumes "0 < n" "n \<le> 65536"
  shows "uint (limit_of (word_of_int n)) = 65536 - 65536 mod n"
    and "n \<le> uint (limit_of (word_of_int n))"
proof -
  have un: "unat (word_of_int n :: 32 word) = nat n" using assms by (intro unat_un) simp_all
  have n: "int (nat n) = n" using assms by simp
  have "65536 mod nat n \<le> (65536::nat)" by (rule mod_less_eq_dividend)
  then have "int (65536 - 65536 mod nat n) = 65536 - int (65536 mod nat n)" by simp
  also have "\<dots> = 65536 - 65536 mod n" by (simp only: zmod_int n) simp
  finally have l: "int (65536 - 65536 mod nat n) = 65536 - 65536 mod n" .
  have u: "uint (limit_of (word_of_int n)) = int (65536 - 65536 mod nat n)"
    by (simp only: uint_nat unat_limit_of un)
  then show "uint (limit_of (word_of_int n)) = 65536 - 65536 mod n" by (simp only: l)
  have "nat n \<le> 65536 - 65536 mod nat n" using assms by (intro limit_ge) simp_all
  then have "int (nat n) \<le> int (65536 - 65536 mod nat n)" by (simp only: of_nat_le_iff)
  then show "n \<le> uint (limit_of (word_of_int n))" by (simp only: u n)
qed

lemma limit_of_beyond:
  assumes "65536 < n" "n < 4294967296"
  shows "limit_of (word_of_int n) = 0"
proof -
  have un: "unat (word_of_int n :: 32 word) = nat n" using assms by (intro unat_un) simp_all
  have "unat (limit_of (word_of_int n)) = 65536 - 65536 mod nat n"
    by (simp only: unat_limit_of un)
  also have "\<dots> = 0" using assms by simp
  finally show ?thesis by (simp add: unat_eq_0)
qed

lemma accepts_zero:
  assumes "0 < n" "n \<le> 65536"
  shows "accepts (word_of_int n) (ReadBytes 0 0)"
proof -
  have "unat (draw16 0 0) = 0" by (simp add: unat_draw16)
  then have z: "draw16 0 0 = 0" by (simp add: unat_eq_0)
  have "0 < uint (limit_of (word_of_int n))" using uint_limit_of(2) [OF assms] assms(1) by simp
  then have "0 < limit_of (word_of_int n)" by (simp add: word_less_def)
  then show ?thesis by (simp add: accepts_def z)
qed


lemma Tokens_eq:
  assumes "a < length st" "length (st ! a) = 32"
  shows "Tokens a st = (\<lparr>ptr = Suc (length st), len = 32\<rparr>, st @ [st ! a, st ! a])"
  using assms
  by (simp add: Tokens_def make_runes_def copy_runes_def Let_def nth_append list_update_append)

lemma set_indices_frame:
  "set_indices s ws st = Some st' \<Longrightarrow> a \<noteq> ptr s \<Longrightarrow>
   st' ! a = st ! a \<and> length st' = length st"
proof (induction ws arbitrary: st)
  case Nil
  then show ?case by simp
next
  case (Cons w ws)
  obtain i v where w: "w = (i, v)" by (cases w)
  from Cons.prems(1) w obtain st1 where s: "set_index s i v st = Some st1"
    "set_indices s ws st1 = Some st'"
    by (auto split: option.splits)
  from s(1) Cons.prems(2) have "st1 ! a = st ! a \<and> length st1 = length st"
    by (auto simp: set_index_def split: if_splits)
  with Cons.IH [OF s(2) Cons.prems(2)] show ?case by simp
qed

section \<open>The generator linked against \<open>crypto/rand\<close>\<close>

text \<open>
  What one read of the two-byte buffer from the random source gives inside \<open>rand.Read\<close>
  (\<open>io.ReadFull(Reader, b)\<close>): an error, or the two bytes.
\<close>

datatype source_read = SourceErr | SourceBytes byte byte

type_synonym source = "source_read stream"

text \<open>
  \<open>rand.Read\<close> of the Go standard library. Before Go 1.24 it hands the error of the source
  to its caller. From Go 1.24 on it never returns an error: when the source fails, it ends
  the process with a fatal error that cannot be recovered, and the call does not return.
\<close>

datatype toolchain = BeforeGo124 | FromGo124

datatype 'a outcome = Returns 'a | Killed

fun rand_Read :: "toolchain \<Rightarrow> source_read \<Rightarrow> rand_read outcome" where
  "rand_Read tc (SourceBytes b0 b1) = Returns (ReadBytes b0 b1)"
| "rand_Read BeforeGo124 SourceErr = Returns ReadFail"
| "rand_Read FromGo124 SourceErr = Killed"

text \<open>
  The loop of \<open>cryptoRandIndex\<close> with its call of \<open>rand.Read\<close> spelled out. A killed
  process returns nothing to any caller.
\<close>

partial_function (option) run_randLoop ::
    "toolchain \<Rightarrow> 32 word \<Rightarrow> 32 word \<Rightarrow> source \<Rightarrow> (int result \<times> source) outcome option" where
  "run_randLoop tc un limit src =
     (case rand_Read tc (shd src) of
        Killed \<Rightarrow> Some Killed
      | Returns ReadFail \<Rightarrow> Some (Returns ((0, Some ErrEntropyFailure), stl src))
      | Returns (ReadBytes b0 b1) \<Rightarrow>
          (let v = push_bit 8 (ucast b0) OR ucast b1
           in if v < limit then Some (Returns ((uint (v mod un), None), stl src))
              else run_randLoop tc un limit (stl src)))"

definition run_cryptoRandIndex ::
    "toolchain \<Rightarrow> int \<Rightarrow> source \<Rightarrow> (int result \<times> source) outcome option" where
  "run_cryptoRandIndex tc n src =
     (if n \<le> 0 then Some (Returns ((0, Some ErrAlphabetTooSmall), src))
      else
        (let max = (65536 :: 32 word);
             un = (word_of_int n :: 32 word)
         in if un = 0 then Some (Returns ((0, Some RuntimePanic), src))
            else run_randLoop tc un (max - max mod un) src))"

function run_fillTokens ::
    "toolchain \<Rightarrow> rune list \<Rightarrow> nat \<Rightarrow> EmojiID \<Rightarrow> source
      \<Rightarrow> (EmojiID result \<times> source) outcome option" where
  "run_fillTokens tc alphabet i eid src =
     (if i < 32 then
        (case run_cryptoRandIndex tc (int (length alphabet)) src of
           None \<Rightarrow> None
         | Some Killed \<Rightarrow> Some Killed
         | Some (Returns ((idx, err), src')) \<Rightarrow>
             if err \<noteq> None then Some (Returns ((zeroID, err), src'))
             else if idx < 0 \<or> int (length alphabet) \<le> idx
               then Some (Returns ((zeroID, Some RuntimePanic), src'))
             else run_fillTokens tc alphabet (i + 1)
                    (eid\<lparr>tokens := (tokens eid)[i := alphabet ! nat idx]\<rparr>) src')
      else Some (Returns ((eid, None), src)))"
  by pat_completeness auto
termination
  by (relation "measure (\<lambda>(tc, alphabet, i, eid, src). 32 - i)") auto

declare run_fillTokens.simps [simp del]

definition run_NewWithAlphabet ::
    "toolchain \<Rightarrow> rune list \<Rightarrow> source \<Rightarrow> (EmojiID result \<times> source) outcome option" where
  "run_NewWithAlphabet tc alphabet src =
     (if length alphabet < 2 then Some (Returns ((zeroID, Some ErrAlphabetTooSmall), src))
      else run_fillTokens tc alphabet 0 zeroID src)"







lemma run_cryptoRandIndex_loop:
  "0 < n \<Longrightarrow> (word_of_int n :: 32 word) \<noteq> 0 \<Longrightarrow>
   run_cryptoRandIndex tc n src = run_randLoop tc (word_of_int n) (limit_of (word_of_int n)) src"
  by (simp add: run_cryptoRandIndex_def limit_of_def Let_def)


lemma run_fillTokens_done:
  "\<not> i < 32 \<Longrightarrow> run_fillTokens tc alphabet i eid src = Some (Returns ((eid, None), src))"
  by (subst run_fillTokens.simps) simp

lemma run_fillTokens_step:
  "i < 32 \<Longrightarrow>
   run_fillTokens tc alphabet i eid src =
     (case run_cryptoRandIndex tc (int (length alphabet)) src of
        None \<Rightarrow> None
      | Some Killed \<Rightarrow> Some Killed
      | Some (Returns ((idx, err), src')) \<Rightarrow>
          if err \<noteq> None then Some (Returns ((zeroID, err), src'))
          else if idx < 0 \<or> int (length alphabet) \<le> idx
            then Some (Returns ((zeroID, Some RuntimePanic), src'))
          else run_fillTokens tc alphabet (i + 1)
                 (eid\<lparr>tokens := (tokens eid)[i := alphabet ! nat idx]\<rparr>) src')"
  by (subst run_fillTokens.simps) simp







text \<open>
  What \<open>rand.Read\<close> hands to its caller when it returns. Every run of the linked
  generator that returns is a run of the generator over these values.
\<close>

definition returned :: "source_read \<Rightarrow> rand_read" where
  "returned r = (case r of SourceErr \<Rightarrow> ReadFail | SourceBytes b0 b1 \<Rightarrow> ReadBytes b0 b1)"

lemma rand_Read_returned: "rand_Read tc r = Returns x \<Longrightarrow> x = returned r"
  by (cases tc; cases r) (simp_all add: returned_def)

lemma run_randLoop_returned:
  assumes "run_randLoop tc un l s = Some y"
  shows "\<forall>r s'. y = Returns (r, s') \<longrightarrow> randLoop un l (smap returned s) = Some (r, smap returned s')"
proof (rule run_randLoop.raw_induct
    [where P = "\<lambda>tc un l s y. \<forall>r s'. y = Returns (r, s')
        \<longrightarrow> randLoop un l (smap returned s) = Some (r, smap returned s')", OF _ assms])
  fix f :: "toolchain \<Rightarrow> 32 word \<Rightarrow> 32 word \<Rightarrow> source \<Rightarrow> (int result \<times> source) outcome option"
    and tc :: toolchain and un limit :: "32 word" and src :: source
    and y :: "(int result \<times> source) outcome"
  assume ih: "\<And>tc un l s y. f tc un l s = Some y \<Longrightarrow>
      \<forall>r s'. y = Returns (r, s') \<longrightarrow> randLoop un l (smap returned s) = Some (r, smap returned s')"
    and body: "(case rand_Read tc (shd src) of
        Killed \<Rightarrow> Some Killed
      | Returns ReadFail \<Rightarrow> Some (Returns ((0, Some ErrEntropyFailure), stl src))
      | Returns (ReadBytes b0 b1) \<Rightarrow>
          let v = push_bit 8 (ucast b0) OR ucast b1
          in if v < limit then Some (Returns ((uint (v mod un), None), stl src))
             else f tc un limit (stl src)) = Some y"
  show "\<forall>r s'. y = Returns (r, s')
      \<longrightarrow> randLoop un limit (smap returned src) = Some (r, smap returned s')"
  proof (intro allI impI)
    fix r s'
    assume y: "y = Returns (r, s')"
    show "randLoop un limit (smap returned src) = Some (r, smap returned s')"
    proof (cases "rand_Read tc (shd src)")
      case Killed
      with body y show ?thesis by simp
    next
      case (Returns x)
      from rand_Read_returned [OF this] have x: "returned (shd src) = x" by simp
      show ?thesis
      proof (cases x)
        case ReadFail
        with body Returns y have "r = (0, Some ErrEntropyFailure)" "s' = stl src" by simp_all
        with x ReadFail show ?thesis by (simp add: randLoop_fail)
      next
        case (ReadBytes b0 b1)
        with x have h: "shd (smap returned src) = ReadBytes b0 b1" by simp
        show ?thesis
        proof (cases "draw16 b0 b1 < limit")
          case True
          with body Returns ReadBytes y
          have "r = (uint (draw16 b0 b1 mod un), None)" "s' = stl src"
            by (simp_all add: draw16_def)
          with randLoop_accept [OF h True, of un] show ?thesis by simp
        next
          case False
          with body Returns ReadBytes have "f tc un limit (stl src) = Some y"
            by (simp add: draw16_def)
          from ih [OF this] y
          have "randLoop un limit (smap returned (stl src)) = Some (r, smap returned s')" by blast
          with randLoop_reject [OF h False, of un] show ?thesis by simp
        qed
      qed
    qed
  qed
qed

lemma run_cryptoRandIndex_returned:
  assumes "run_cryptoRandIndex tc n s = Some (Returns (r, s'))"
  shows "cryptoRandIndex n (smap returned s) = Some (r, smap returned s')"
proof (cases "n \<le> 0 \<or> (word_of_int n :: 32 word) = 0")
  case True
  with assms show ?thesis
    by (auto simp: run_cryptoRandIndex_def cryptoRandIndex_def Let_def split: if_splits)
next
  case False
  with assms have "run_randLoop tc (word_of_int n) (limit_of (word_of_int n)) s
      = Some (Returns (r, s'))"
    by (simp add: run_cryptoRandIndex_loop)
  from run_randLoop_returned [OF this] False show ?thesis
    by (simp add: cryptoRandIndex_loop)
qed

lemma run_fillTokens_returned:
  "k = 32 - i \<Longrightarrow> run_fillTokens tc alphabet i eid s = Some (Returns (r, s')) \<Longrightarrow>
   fillTokens alphabet i eid (smap returned s) = Some (r, smap returned s')"
proof (induction k arbitrary: i eid s)
  case 0
  then have "\<not> i < 32" by simp
  with 0 show ?case by (simp add: run_fillTokens_done fillTokens_done)
next
  case (Suc k)
  then have i: "i < 32" "k = 32 - (i + 1)" by simp_all
  from Suc.prems(2) i(1) obtain idx er s1 where
    c: "run_cryptoRandIndex tc (int (length alphabet)) s = Some (Returns ((idx, er), s1))"
    by (auto simp: run_fillTokens_step split: option.splits outcome.splits)
  from run_cryptoRandIndex_returned [OF c]
  have c': "cryptoRandIndex (int (length alphabet)) (smap returned s)
      = Some ((idx, er), smap returned s1)" .
  show ?case
  proof (cases "er \<noteq> None \<or> idx < 0 \<or> int (length alphabet) \<le> idx")
    case True
    with Suc.prems(2) i(1) c c' show ?thesis
      by (auto simp: run_fillTokens_step fillTokens_step)
  next
    case False
    with Suc.prems(2) i(1) c
    have "run_fillTokens tc alphabet (i + 1)
        (eid\<lparr>tokens := (tokens eid)[i := alphabet ! nat idx]\<rparr>) s1 = Some (Returns (r, s'))"
      by (simp add: run_fillTokens_step)
    from Suc.IH [OF i(2) this] False i(1) c' show ?thesis
      by (simp add: fillTokens_step)
  qed
qed

lemma run_NewWithAlphabet_returned:
  assumes "run_NewWithAlphabet tc alphabet s = Some (Returns (r, s'))"
  shows "NewWithAlphabet alphabet (smap returned s) = Some (r, smap returned s')"
proof (cases "length alphabet < 2")
  case True
  with assms show ?thesis by (auto simp: run_NewWithAlphabet_def NewWithAlphabet_def)
next
  case False
  with assms run_fillTokens_returned [OF refl, of tc alphabet 0 zeroID s r s']
  show ?thesis by (simp add: run_NewWithAlphabet_def NewWithAlphabet_def)
qed

section \<open>The properties of the specification\<close>

subsection \<open>C1: parsing the string of an identifier\<close>

text \<open>
  C1, as amended. For every alphabet with at least 2 entries and every identifier whose 32
  tokens are all in that alphabet, \<open>ParseWithAlphabet (String e) alphabet\<close> succeeds and
  returns \<open>e\<close> if and only if no token of \<open>e\<close> is the delimiter \<open>'-'\<close> and every
  token is a valid rune (at most U+10FFFF and no surrogate); the returned identifier is then
  \<open>Equal\<close> to \<open>e\<close>. It does not hold for every alphabet: \<open>String\<close> does not escape
  a \<open>'-'\<close> token, and writes U+FFFD for an invalid rune.
\<close>

theorem roundtrip_String_Parse:
  assumes "2 \<le> length alphabet" "wf_id e" "set (tokens e) \<subseteq> set alphabet"
  shows "(ParseWithAlphabet (String e) alphabet = (e, None) \<longleftrightarrow>
           (\<forall>r \<in> set (tokens e). r \<noteq> dashRune \<and> valid_rune r)) \<and>
         ((\<forall>r \<in> set (tokens e). r \<noteq> dashRune \<and> valid_rune r) \<longrightarrow>
           Equal (fst (ParseWithAlphabet (String e) alphabet)) e)"
proof -
  have a: "ParseWithAlphabet (String e) alphabet = (e, None)"
    if h: "\<forall>r \<in> set (tokens e). r \<noteq> dashRune \<and> valid_rune r"
  proof -
    from h have nd: "dashRune \<notin> set (tokens e)" by blast
    from h have "map written (tokens e) = tokens e"
      by (intro map_idI) (simp add: written_id_iff)
    then have t: "tokens_of (String e) = tokens e"
      by (simp only: tokens_of_String [OF assms(2) nd])
    show ?thesis
      unfolding Parse_success using assms(1,3) shape_ok_String [OF assms(2) nd] t by simp
  qed
  have b: "\<forall>r \<in> set (tokens e). r \<noteq> dashRune \<and> valid_rune r"
    if "ParseWithAlphabet (String e) alphabet = (e, None)"
  proof -
    from that have "tokens e = tokens_of (String e)" by (simp add: Parse_success)
    then show ?thesis using tokens_of_props [of _ "String e"] by simp
  qed
  from a b show ?thesis by (auto simp: Equal_def)
qed

theorem roundtrip_String_Parse_witness:
  "ParseWithAlphabet
     (String \<lparr>tokens = [0x1F600, 0x2615, 0x41, 0xE9, 0x1F600, 0x2615, 0x41, 0xE9,
       0x1F600, 0x2615, 0x41, 0xE9, 0x1F600, 0x2615, 0x41, 0xE9, 0x1F600, 0x2615, 0x41, 0xE9,
       0x1F600, 0x2615, 0x41, 0xE9, 0x1F600, 0x2615, 0x41, 0xE9, 0x1F600, 0x2615, 0x41, 0xE9]\<rparr>)
     [0x1F600, 0x2615, 0x41, 0xE9]
   = (\<lparr>tokens = [0x1F600, 0x2615, 0x41, 0xE9, 0x1F600, 0x2615, 0x41, 0xE9,
       0x1F600, 0x2615, 0x41, 0xE9, 0x1F600, 0x2615, 0x41, 0xE9, 0x1F600, 0x2615, 0x41, 0xE9,
       0x1F600, 0x2615, 0x41, 0xE9, 0x1F600, 0x2615, 0x41, 0xE9, 0x1F600, 0x2615, 0x41, 0xE9]\<rparr>,
      None)"
proof -
  let ?e = "\<lparr>tokens = [0x1F600, 0x2615, 0x41, 0xE9, 0x1F600, 0x2615, 0x41, 0xE9,
       0x1F600, 0x2615, 0x41, 0xE9, 0x1F600, 0x2615, 0x41, 0xE9, 0x1F600, 0x2615, 0x41, 0xE9,
       0x1F600, 0x2615, 0x41, 0xE9, 0x1F600, 0x2615, 0x41, 0xE9, 0x1F600, 0x2615, 0x41, 0xE9 :: rune]\<rparr>"
  let ?A = "[0x1F600, 0x2615, 0x41, 0xE9] :: rune list"
  have 1: "2 \<le> length ?A" by simp
  have 2: "wf_id ?e" by (simp add: wf_id_def)
  have 3: "set (tokens ?e) \<subseteq> set ?A" by simp
  have "valid_rune 0x1F600" "valid_rune 0x2615" "valid_rune 0x41" "valid_rune 0xE9"
    by (simp_all add: valid_rune_def)
  then have 4: "\<forall>r \<in> set (tokens ?e). r \<noteq> dashRune \<and> valid_rune r" by simp
  from roundtrip_String_Parse [OF 1 2 3] 4 show ?thesis by blast
qed

theorem roundtrip_String_Parse_counterexample:
  "2 \<le> length [dashRune, 0x41] \<and>
   wf_id \<lparr>tokens = replicate 32 dashRune\<rparr> \<and>
   set (tokens \<lparr>tokens = replicate 32 dashRune\<rparr>) \<subseteq> set [dashRune, 0x41] \<and>
   ParseWithAlphabet (String \<lparr>tokens = replicate 32 dashRune\<rparr>) [dashRune, 0x41]
     = (zeroID, Some ErrInvalidFormat) \<and>
   2 \<le> length [surrogateMin, 0x41] \<and>
   wf_id \<lparr>tokens = replicate 32 surrogateMin\<rparr> \<and>
   set (tokens \<lparr>tokens = replicate 32 surrogateMin\<rparr>) \<subseteq> set [surrogateMin, 0x41] \<and>
   ParseWithAlphabet (String \<lparr>tokens = replicate 32 surrogateMin\<rparr>) [surrogateMin, 0x41]
     = (zeroID, Some (ErrInvalidToken [0xEF, 0xBF, 0xBD]))"
  by code_simp

subsection \<open>C2: one index draw, and 32 of them\<close>

text \<open>
  C2. For every alphabet size \<open>n\<close> with \<open>2 \<le> n \<le> 65536\<close>, \<open>cryptoRandIndex n\<close> is the
  reference rejection sampler of the specification (read two bytes, combine them big-endian
  into \<open>v\<close>, accept \<open>v mod n\<close> if \<open>v < 65536 - 65536 mod n\<close>, otherwise redraw), on every
  entropy stream, including where it fails and where it never returns; every index it
  returns is in \<open>[0, n)\<close>; and \<open>NewWithAlphabet\<close> is 32 such draws in a row, mapped into the
  alphabet.
\<close>

theorem cryptoRandIndex_follows_reference:
  assumes "2 \<le> n" "n \<le> 65536"
  shows "cryptoRandIndex n src = spec_draw_index n src \<and>
         (\<forall>idx err src'. cryptoRandIndex n src = Some ((idx, err), src') \<longrightarrow>
            0 \<le> idx \<and> idx < n \<and> (err = None \<or> err = Some ErrEntropyFailure)) \<and>
         (int (length alphabet) = n \<longrightarrow> NewWithAlphabet alphabet src = spec_new alphabet src)"
proof (intro conjI allI impI)
  from assms show "cryptoRandIndex n src = spec_draw_index n src"
    by (intro cryptoRandIndex_refines) simp_all
next
  fix idx err src'
  assume c: "cryptoRandIndex n src = Some ((idx, err), src')"
  have n: "0 < n" "n < 4294967296" using assms by simp_all
  from cryptoRandIndex_result [OF n(1) c] un_nonzero [OF n] n(1)
  have "(err = None \<and> 0 \<le> idx \<and> idx < n) \<or> (idx = 0 \<and> err = Some ErrEntropyFailure)" by auto
  with n(1) show "0 \<le> idx" "idx < n" "err = None \<or> err = Some ErrEntropyFailure" by auto
next
  assume "int (length alphabet) = n"
  with assms(2) have "length alphabet \<le> 65536" by simp
  then show "NewWithAlphabet alphabet src = spec_new alphabet src"
    by (rule NewWithAlphabet_refines)
qed

theorem cryptoRandIndex_follows_reference_witness:
  "cryptoRandIndex 3 (ReadBytes 0xFF 0xFF ## ReadBytes 0 5 ## sconst ReadFail)
     = Some ((2, None), sconst ReadFail) \<and>
   NewWithAlphabet [0x41, 0x42] alternating
     = Some ((\<lparr>tokens = [0x41, 0x42, 0x41, 0x42, 0x41, 0x42, 0x41, 0x42, 0x41, 0x42, 0x41, 0x42,
          0x41, 0x42, 0x41, 0x42, 0x41, 0x42, 0x41, 0x42, 0x41, 0x42, 0x41, 0x42, 0x41, 0x42,
          0x41, 0x42, 0x41, 0x42, 0x41, 0x42]\<rparr>, None), alternating)"
proof -
  have s: "spec_draw_index 3 (ReadBytes 0xFF 0xFF ## ReadBytes 0 5 ## sconst ReadFail)
      = Some ((2, None), sconst ReadFail)"
    by (simp add: spec_draw_index.simps)
  have 3: "(2::int) \<le> 3" "(3::int) \<le> 65536" by simp_all
  have 2: "(2::int) \<le> 2" "(2::int) \<le> 65536" by simp_all
  have l: "int (length [0x41, 0x42 :: rune]) = 2" by simp
  from cryptoRandIndex_follows_reference [OF 3, of "ReadBytes 0xFF 0xFF ## ReadBytes 0 5 ## sconst ReadFail"]
    cryptoRandIndex_follows_reference [OF 2, of alternating "[0x41, 0x42]"] l
  show ?thesis by (simp only: s spec_new_alternating)
qed

subsection \<open>C3: when parsing fails with \<open>ErrInvalidFormat\<close>\<close>

text \<open>
  C3, as amended. For every string \<open>s\<close> and every alphabet with at least 2 entries,
  \<open>ParseWithAlphabet s alphabet\<close> fails with \<open>ErrInvalidFormat\<close> if and only if splitting
  \<open>s\<close> on \<open>'-'\<close> does not give exactly 5 parts, or some part's number of runes differs
  from its size in \<open>[8, 4, 4, 4, 12]\<close>. A rune total other than 32 always is such a failure
  (it forces a part of the wrong size), so adding it as a third case changes nothing; it
  is a sufficient condition only, not an equivalent one: a string whose runes total 32
  fails in the same way when a part has the wrong size.
\<close>

theorem ParseWithAlphabet_InvalidFormat_iff:
  assumes "2 \<le> length alphabet"
  shows "(snd (ParseWithAlphabet s alphabet) = Some ErrInvalidFormat \<longleftrightarrow>
            length (Split s) \<noteq> 5 \<or> (\<exists>i<5. length (runes (Split s ! i)) \<noteq> want ! i)) \<and>
         (length (tokens_of s) \<noteq> 32 \<longrightarrow>
            snd (ParseWithAlphabet s alphabet) = Some ErrInvalidFormat) \<and>
         (snd (ParseWithAlphabet s alphabet) = Some ErrInvalidFormat \<longleftrightarrow>
            length (Split s) \<noteq> 5 \<or> (\<exists>i<5. length (runes (Split s ! i)) \<noteq> want ! i)
            \<or> length (tokens_of s) \<noteq> 32)"
proof -
  have a: "snd (ParseWithAlphabet s alphabet) = Some ErrInvalidFormat \<longleftrightarrow>
      length (Split s) \<noteq> 5 \<or> (\<exists>i<5. length (runes (Split s ! i)) \<noteq> want ! i)"
    unfolding ParseWithAlphabet_format_error [OF assms] shape_ok_iff by auto
  have b: "length (tokens_of s) \<noteq> 32 \<longrightarrow> snd (ParseWithAlphabet s alphabet) = Some ErrInvalidFormat"
    unfolding ParseWithAlphabet_format_error [OF assms] using shape_ok_length [of s] by auto
  from a b show ?thesis by blast
qed

theorem ParseWithAlphabet_InvalidFormat_iff_witness:
  "snd (ParseWithAlphabet (ascii ''abc'') DefaultAlphabet) = Some ErrInvalidFormat \<and>
   snd (ParseWithAlphabet (ascii ''aa-bb-cc-dd-ee'') DefaultAlphabet) = Some ErrInvalidFormat \<and>
   snd (ParseWithAlphabet (ascii ''ABABABA-BABAB-ABAB-ABAB-ABABABABABAB'') [0x41, 0x42])
     = Some ErrInvalidFormat \<and>
   snd (ParseWithAlphabet (ascii ''ABABABAB-ABAB-ABAB-ABAB-ABABABABABAB'') [0x41, 0x42])
     \<noteq> Some ErrInvalidFormat"
proof -
  have d: "2 \<le> length DefaultAlphabet" by (simp add: DefaultAlphabet_def)
  have ab: "2 \<le> length ([0x41, 0x42] :: rune list)" by simp
  have 1: "length (Split (ascii ''abc'')) \<noteq> 5" by code_simp
  have "length (runes (Split (ascii ''aa-bb-cc-dd-ee'') ! 0)) \<noteq> want ! 0" by code_simp
  then have 2: "\<exists>i<5. length (runes (Split (ascii ''aa-bb-cc-dd-ee'') ! i)) \<noteq> want ! i"
    by (intro exI [of _ 0]) simp
  have "length (runes (Split (ascii ''ABABABA-BABAB-ABAB-ABAB-ABABABABABAB'') ! 0)) \<noteq> want ! 0"
    by code_simp
  then have 3: "\<exists>i<5. length (runes (Split (ascii ''ABABABA-BABAB-ABAB-ABAB-ABABABABABAB'') ! i))
      \<noteq> want ! i"
    by (intro exI [of _ 0]) simp
  have 4: "shape_ok (ascii ''ABABABAB-ABAB-ABAB-ABAB-ABABABABABAB'')" by code_simp
  from ParseWithAlphabet_InvalidFormat_iff [OF d, of "ascii ''abc''"] 1
  have r1: "snd (ParseWithAlphabet (ascii ''abc'') DefaultAlphabet) = Some ErrInvalidFormat"
    by blast
  from ParseWithAlphabet_InvalidFormat_iff [OF d, of "ascii ''aa-bb-cc-dd-ee''"] 2
  have r2: "snd (ParseWithAlphabet (ascii ''aa-bb-cc-dd-ee'') DefaultAlphabet) = Some ErrInvalidFormat"
    by blast
  from ParseWithAlphabet_InvalidFormat_iff [OF ab, of "ascii ''ABABABA-BABAB-ABAB-ABAB-ABABABABABAB''"] 3
  have r3: "snd (ParseWithAlphabet (ascii ''ABABABA-BABAB-ABAB-ABAB-ABABABABABAB'') [0x41, 0x42])
     = Some ErrInvalidFormat"
    by blast
  from ParseWithAlphabet_InvalidFormat_iff [OF ab, of "ascii ''ABABABAB-ABAB-ABAB-ABAB-ABABABABABAB''"]
    4 [unfolded shape_ok_iff]
  have r4: "snd (ParseWithAlphabet (ascii ''ABABABAB-ABAB-ABAB-ABAB-ABABABABABAB'') [0x41, 0x42])
     \<noteq> Some ErrInvalidFormat"
    by blast
  from r1 r2 r3 r4 show ?thesis by blast
qed

theorem ParseWithAlphabet_InvalidFormat_iff_counterexample:
  "2 \<le> length [0x41, 0x42 :: rune] \<and>
   ParseWithAlphabet (ascii ''ABABABABA-BAB-ABAB-ABAB-ABABABABABAB'') [0x41, 0x42]
     = (zeroID, Some ErrInvalidFormat) \<and>
   length (Split (ascii ''ABABABABA-BAB-ABAB-ABAB-ABABABABABAB'')) = 5 \<and>
   length (runes (Split (ascii ''ABABABABA-BAB-ABAB-ABAB-ABABABABABAB'') ! 0)) \<noteq> want ! 0 \<and>
   length (tokens_of (ascii ''ABABABABA-BAB-ABAB-ABAB-ABABABABABAB'')) = 32"
  by code_simp

subsection \<open>C4: the order of the checks\<close>

text \<open>
  C4. \<open>ParseWithAlphabet\<close> checks the size of the alphabet first, then the shape of the
  five groups, then the membership of the tokens in sequence order: a short alphabet gives
  \<open>ErrAlphabetTooSmall\<close> whatever the string is; otherwise a wrong shape gives
  \<open>ErrInvalidFormat\<close> whatever the tokens are; otherwise the first token outside the
  alphabet, at index \<open>i\<close>, gives \<open>ErrInvalidToken\<close> carrying that token as a string;
  otherwise the parse succeeds with the tokens of the string.
\<close>

theorem ParseWithAlphabet_validation_order:
  "(length alphabet < 2 \<longrightarrow> ParseWithAlphabet s alphabet = (zeroID, Some ErrAlphabetTooSmall)) \<and>
   (2 \<le> length alphabet \<longrightarrow> \<not> shape_ok s \<longrightarrow>
      ParseWithAlphabet s alphabet = (zeroID, Some ErrInvalidFormat)) \<and>
   (2 \<le> length alphabet \<longrightarrow> shape_ok s \<longrightarrow> i < 32 \<longrightarrow> tokens_of s ! i \<notin> set alphabet \<longrightarrow>
      (\<forall>j<i. tokens_of s ! j \<in> set alphabet) \<longrightarrow>
      ParseWithAlphabet s alphabet = (zeroID, Some (ErrInvalidToken (encodeRune (tokens_of s ! i))))) \<and>
   (2 \<le> length alphabet \<longrightarrow> shape_ok s \<longrightarrow> set (tokens_of s) \<subseteq> set alphabet \<longrightarrow>
      ParseWithAlphabet s alphabet = (\<lparr>tokens = tokens_of s\<rparr>, None))"
proof (intro conjI impI)
  assume "length alphabet < 2"
  then show "ParseWithAlphabet s alphabet = (zeroID, Some ErrAlphabetTooSmall)"
    by (simp add: ParseWithAlphabet_eq)
next
  assume "2 \<le> length alphabet" "\<not> shape_ok s"
  then show "ParseWithAlphabet s alphabet = (zeroID, Some ErrInvalidFormat)"
    by (simp add: ParseWithAlphabet_eq)
next
  assume a: "2 \<le> length alphabet" "shape_ok s" "i < 32" "tokens_of s ! i \<notin> set alphabet"
    "\<forall>j<i. tokens_of s ! j \<in> set alphabet"
  from a(2,3) have "i < length (tokens_of s)" by (simp add: shape_ok_length)
  from find_first [of i "tokens_of s" "\<lambda>r. r \<notin> set alphabet", OF this] a(4,5)
  have "find (\<lambda>r. r \<notin> set alphabet) (tokens_of s) = Some (tokens_of s ! i)" by simp
  with a(1,2)
  show "ParseWithAlphabet s alphabet = (zeroID, Some (ErrInvalidToken (encodeRune (tokens_of s ! i))))"
    by (simp add: ParseWithAlphabet_eq)
next
  assume a: "2 \<le> length alphabet" "shape_ok s" "set (tokens_of s) \<subseteq> set alphabet"
  from a(3) have "find (\<lambda>r. r \<notin> set alphabet) (tokens_of s) = None"
    by (simp only: find_None_subset)
  with a(1,2) show "ParseWithAlphabet s alphabet = (\<lparr>tokens = tokens_of s\<rparr>, None)"
    by (simp add: ParseWithAlphabet_eq)
qed

theorem ParseWithAlphabet_validation_order_witness:
  "ParseWithAlphabet (ascii ''XBAB-ABAB'') [0x41] = (zeroID, Some ErrAlphabetTooSmall) \<and>
   ParseWithAlphabet (ascii ''XBAB-ABAB'') [0x41, 0x42] = (zeroID, Some ErrInvalidFormat) \<and>
   ParseWithAlphabet (ascii ''ABXBABYB-ABAB-ABAB-ABAB-ABABABABABAB'') [0x41, 0x42]
     = (zeroID, Some (ErrInvalidToken (ascii ''X''))) \<and>
   ParseWithAlphabet (ascii ''ABABABAB-ABAB-ABAB-ABAB-ABABABABABAB'') [0x41, 0x42]
     = (\<lparr>tokens = [0x41, 0x42, 0x41, 0x42, 0x41, 0x42, 0x41, 0x42, 0x41, 0x42, 0x41, 0x42,
          0x41, 0x42, 0x41, 0x42, 0x41, 0x42, 0x41, 0x42, 0x41, 0x42, 0x41, 0x42, 0x41, 0x42,
          0x41, 0x42, 0x41, 0x42, 0x41, 0x42]\<rparr>, None)"
proof -
  let ?AB = "[0x41, 0x42] :: rune list"
  let ?bad = "ascii ''XBAB-ABAB''"
  let ?xy = "ascii ''ABXBABYB-ABAB-ABAB-ABAB-ABABABABABAB''"
  let ?ok = "ascii ''ABABABAB-ABAB-ABAB-ABAB-ABABABABABAB''"
  have 1: "ParseWithAlphabet ?bad [0x41] = (zeroID, Some ErrAlphabetTooSmall)"
    using ParseWithAlphabet_validation_order [of "[0x41]" ?bad] by simp
  have "\<not> shape_ok ?bad" by code_simp
  then have 2: "ParseWithAlphabet ?bad ?AB = (zeroID, Some ErrInvalidFormat)"
    using ParseWithAlphabet_validation_order [of ?AB ?bad] by simp
  have s: "shape_ok ?xy" by code_simp
  have t: "tokens_of ?xy ! 2 = 0x58" "tokens_of ?xy ! 0 = 0x41" "tokens_of ?xy ! Suc 0 = 0x42"
    by code_simp+
  then have "\<forall>j<2. tokens_of ?xy ! j \<in> set ?AB"
    by (auto simp: less_2_cases_iff)
  with s t have 3: "ParseWithAlphabet ?xy ?AB = (zeroID, Some (ErrInvalidToken (encodeRune 0x58)))"
    using ParseWithAlphabet_validation_order [of ?AB ?xy 2] by simp
  have e: "encodeRune 0x58 = ascii ''X''" by code_simp
  have s': "shape_ok ?ok" by code_simp
  have t': "tokens_of ?ok = [0x41, 0x42, 0x41, 0x42, 0x41, 0x42, 0x41, 0x42, 0x41, 0x42, 0x41, 0x42,
          0x41, 0x42, 0x41, 0x42, 0x41, 0x42, 0x41, 0x42, 0x41, 0x42, 0x41, 0x42, 0x41, 0x42,
          0x41, 0x42, 0x41, 0x42, 0x41, 0x42]" by code_simp
  have 4: "ParseWithAlphabet ?ok ?AB = (\<lparr>tokens = tokens_of ?ok\<rparr>, None)"
    using ParseWithAlphabet_validation_order [of ?AB ?ok] s' by (simp add: t')
  from 1 2 3 4 show ?thesis by (simp only: e t') 
qed

subsection \<open>C5: \<open>ErrAlphabetTooSmall\<close>\<close>

text \<open>
  C5. \<open>NewWithAlphabet\<close> and \<open>ParseWithAlphabet\<close> fail with \<open>ErrAlphabetTooSmall\<close> exactly
  when the alphabet has fewer than 2 entries. The check comes first: the result is the same
  for every entropy stream, which is handed back untouched, and for every string. In
  particular the empty alphabet and a one-entry alphabet fail so.
\<close>

theorem AlphabetTooSmall_iff:
  "(length alphabet < 2 \<longrightarrow>
      NewWithAlphabet alphabet src = Some ((zeroID, Some ErrAlphabetTooSmall), src) \<and>
      ParseWithAlphabet s alphabet = (zeroID, Some ErrAlphabetTooSmall)) \<and>
   (2 \<le> length alphabet \<longrightarrow>
      snd (ParseWithAlphabet s alphabet) \<noteq> Some ErrAlphabetTooSmall \<and>
      (\<forall>e err src'. NewWithAlphabet alphabet src = Some ((e, err), src') \<longrightarrow>
         err \<noteq> Some ErrAlphabetTooSmall)) \<and>
   NewWithAlphabet [] src = Some ((zeroID, Some ErrAlphabetTooSmall), src) \<and>
   NewWithAlphabet [x] src = Some ((zeroID, Some ErrAlphabetTooSmall), src)"
proof (intro conjI impI allI)
  assume "length alphabet < 2"
  then show "NewWithAlphabet alphabet src = Some ((zeroID, Some ErrAlphabetTooSmall), src)"
    "ParseWithAlphabet s alphabet = (zeroID, Some ErrAlphabetTooSmall)"
    by (simp_all add: NewWithAlphabet_def ParseWithAlphabet_def)
next
  assume "2 \<le> length alphabet"
  then show "snd (ParseWithAlphabet s alphabet) \<noteq> Some ErrAlphabetTooSmall"
    by (simp add: ParseWithAlphabet_eq split: option.split)
next
  fix e err src'
  assume a: "2 \<le> length alphabet" "NewWithAlphabet alphabet src = Some ((e, err), src')"
  show "err \<noteq> Some ErrAlphabetTooSmall"
  proof
    assume "err = Some ErrAlphabetTooSmall"
    with a(2) NewWithAlphabet_error(2) [of alphabet src e ErrAlphabetTooSmall src'] a(1)
    show False by simp
  qed
next
  show "NewWithAlphabet [] src = Some ((zeroID, Some ErrAlphabetTooSmall), src)"
    "NewWithAlphabet [x] src = Some ((zeroID, Some ErrAlphabetTooSmall), src)"
    by (simp_all add: NewWithAlphabet_def)
qed

theorem AlphabetTooSmall_iff_witness:
  "NewWithAlphabet [0x41] alternating = Some ((zeroID, Some ErrAlphabetTooSmall), alternating) \<and>
   ParseWithAlphabet (ascii ''AAAAAAAA-AAAA-AAAA-AAAA-AAAAAAAAAAAA'') [0x41]
     = (zeroID, Some ErrAlphabetTooSmall) \<and>
   snd (ParseWithAlphabet (ascii ''abc'') [0x41, 0x42]) \<noteq> Some ErrAlphabetTooSmall \<and>
   NewWithAlphabet [0x41, 0x42] alternating \<noteq> Some ((zeroID, Some ErrAlphabetTooSmall), alternating)"
proof -
  have 1: "length [0x41 :: rune] < 2" by simp
  have 2: "2 \<le> length [0x41, 0x42 :: rune]" by simp
  from AlphabetTooSmall_iff [of "[0x41]" alternating "ascii ''AAAAAAAA-AAAA-AAAA-AAAA-AAAAAAAAAAAA''"] 1
  have a: "NewWithAlphabet [0x41] alternating = Some ((zeroID, Some ErrAlphabetTooSmall), alternating)"
    "ParseWithAlphabet (ascii ''AAAAAAAA-AAAA-AAAA-AAAA-AAAAAAAAAAAA'') [0x41]
     = (zeroID, Some ErrAlphabetTooSmall)" by blast+
  from AlphabetTooSmall_iff [of "[0x41, 0x42]" alternating "ascii ''abc''"] 2
  have b: "snd (ParseWithAlphabet (ascii ''abc'') [0x41, 0x42]) \<noteq> Some ErrAlphabetTooSmall"
    "NewWithAlphabet [0x41, 0x42] alternating \<noteq> Some ((zeroID, Some ErrAlphabetTooSmall), alternating)"
    by blast+
  from a b show ?thesis by blast
qed

subsection \<open>C6: the layout written by \<open>String\<close>\<close>

text \<open>
  C6, as amended. For every identifier, \<open>String\<close> returns a string (it has no failing
  path) made of the text of tokens 0-7, the delimiter, tokens 8-11, the delimiter, tokens
  12-15, the delimiter, tokens 16-19, the delimiter and tokens 20-31, with nothing before,
  between or after them, these being all 32 tokens in order: 8, 4, 4, 4 and 12 symbols
  (counted as runes) joined by single \<open>'-'\<close> bytes, 32 symbols and 4 delimiters, 36 runes
  in all. The string begins with the text of token 0 and ends with the text of token 31:
  it has a leading (trailing) delimiter exactly when token 0 (token 31) is \<open>'-'\<close> itself,
  and whitespace before the first or after the last symbol only where that token is
  itself whitespace. Splitting
  the string on \<open>'-'\<close> gives 5 parts and one more for every token that is \<open>'-'\<close>: exactly
  five groups, and then these five, exactly when no token is the delimiter.
\<close>

theorem String_layout:
  assumes "wf_id e"
  shows "String e = encodeRunes (slice (tokens e) 0 8) @ [dash]
           @ encodeRunes (slice (tokens e) 8 12) @ [dash]
           @ encodeRunes (slice (tokens e) 12 16) @ [dash]
           @ encodeRunes (slice (tokens e) 16 20) @ [dash]
           @ encodeRunes (slice (tokens e) 20 32) \<and>
         slice (tokens e) 0 8 @ slice (tokens e) 8 12 @ slice (tokens e) 12 16
           @ slice (tokens e) 16 20 @ slice (tokens e) 20 32 = tokens e \<and>
         map (\<lambda>g. length (runes (encodeRunes g)))
           [slice (tokens e) 0 8, slice (tokens e) 8 12, slice (tokens e) 12 16,
            slice (tokens e) 16 20, slice (tokens e) 20 32] = [8, 4, 4, 4, 12] \<and>
         length (runes (String e)) = 32 + 4 \<and>
         hd (runes (String e)) = written (tokens e ! 0) \<and>
         last (runes (String e)) = written (tokens e ! 31) \<and>
         (hd (String e) = dash \<longleftrightarrow> tokens e ! 0 = dashRune) \<and>
         (last (String e) = dash \<longleftrightarrow> tokens e ! 31 = dashRune) \<and>
         length (Split (String e)) = 5 + count_list (tokens e) dashRune \<and>
         (length (Split (String e)) = 5 \<longleftrightarrow> dashRune \<notin> set (tokens e)) \<and>
         (dashRune \<notin> set (tokens e) \<longrightarrow>
            Split (String e) = map encodeRunes
              [slice (tokens e) 0 8, slice (tokens e) 8 12, slice (tokens e) 12 16,
               slice (tokens e) 16 20, slice (tokens e) 20 32])"
proof -
  have a: "String e = encodeRunes (slice (tokens e) 0 8) @ [dash]
           @ encodeRunes (slice (tokens e) 8 12) @ [dash]
           @ encodeRunes (slice (tokens e) 12 16) @ [dash]
           @ encodeRunes (slice (tokens e) 16 20) @ [dash]
           @ encodeRunes (slice (tokens e) 20 32)"
    using String_eq [OF assms] by simp
  have b: "slice (tokens e) 0 8 @ slice (tokens e) 8 12 @ slice (tokens e) 12 16
           @ slice (tokens e) 16 20 @ slice (tokens e) 20 32 = tokens e"
    using concat_groups [OF assms] by (simp add: groups_def)
  have c: "map (\<lambda>g. length (runes (encodeRunes g)))
           [slice (tokens e) 0 8, slice (tokens e) 8 12, slice (tokens e) 12 16,
            slice (tokens e) 16 20, slice (tokens e) 20 32] = [8, 4, 4, 4, 12]"
    using group_rune_counts [OF assms] by (simp add: groups_def want_def)
  have d: "length (runes (String e)) = 32 + 4"
    using String_length_runes [OF assms] by simp
  have f: "hd (String e) = dash \<longleftrightarrow> tokens e ! 0 = dashRune"
    "last (String e) = dash \<longleftrightarrow> tokens e ! 31 = dashRune"
    by (simp_all only: String_ends [OF assms] hd_encodeRune_dash last_encodeRune_dash)
  have g: "length (Split (String e)) = 5 + count_list (tokens e) dashRune"
    by (rule length_Split_String [OF assms])
  have h: "length (Split (String e)) = 5 \<longleftrightarrow> dashRune \<notin> set (tokens e)"
    unfolding g by (simp add: count_list_0_iff)
  have i: "dashRune \<notin> set (tokens e) \<longrightarrow>
      Split (String e) = map encodeRunes
        [slice (tokens e) 0 8, slice (tokens e) 8 12, slice (tokens e) 12 16,
         slice (tokens e) 16 20, slice (tokens e) 20 32]"
    using Split_String [OF assms] by (simp add: groups_def)
  from a b c d runes_String_ends [OF assms] f g h i show ?thesis by blast
qed

theorem String_layout_witness:
  "String \<lparr>tokens = [0x41, 0x42, 0x41, 0x42, 0x41, 0x42, 0x41, 0x42, 0x41, 0x42, 0x41, 0x42,
          0x41, 0x42, 0x41, 0x42, 0x41, 0x42, 0x41, 0x42, 0x41, 0x42, 0x41, 0x42, 0x41, 0x42,
          0x41, 0x42, 0x41, 0x42, 0x41, 0x42]\<rparr> = ascii ''ABABABAB-ABAB-ABAB-ABAB-ABABABABABAB'' \<and>
   Split (ascii ''ABABABAB-ABAB-ABAB-ABAB-ABABABABABAB'')
     = [ascii ''ABABABAB'', ascii ''ABAB'', ascii ''ABAB'', ascii ''ABAB'', ascii ''ABABABABABAB'']"
proof -
  let ?e = "\<lparr>tokens = [0x41, 0x42, 0x41, 0x42, 0x41, 0x42, 0x41, 0x42, 0x41, 0x42, 0x41, 0x42,
          0x41, 0x42, 0x41, 0x42, 0x41, 0x42, 0x41, 0x42, 0x41, 0x42, 0x41, 0x42, 0x41, 0x42,
          0x41, 0x42, 0x41, 0x42, 0x41, 0x42 :: rune]\<rparr>"
  have w: "wf_id ?e" by (simp add: wf_id_def)
  have nd: "dashRune \<notin> set (tokens ?e)" by simp
  have g: "encodeRunes (slice (tokens ?e) 0 8) = ascii ''ABABABAB''"
    "encodeRunes (slice (tokens ?e) 8 12) = ascii ''ABAB''"
    "encodeRunes (slice (tokens ?e) 12 16) = ascii ''ABAB''"
    "encodeRunes (slice (tokens ?e) 16 20) = ascii ''ABAB''"
    "encodeRunes (slice (tokens ?e) 20 32) = ascii ''ABABABABABAB''"
    by code_simp+
  have j: "ascii ''ABABABAB'' @ [dash] @ ascii ''ABAB'' @ [dash] @ ascii ''ABAB'' @ [dash]
      @ ascii ''ABAB'' @ [dash] @ ascii ''ABABABABABAB''
      = ascii ''ABABABAB-ABAB-ABAB-ABAB-ABABABABABAB''"
    by (simp add: ascii_def)
  from String_layout [OF w] have
    s: "String ?e = encodeRunes (slice (tokens ?e) 0 8) @ [dash]
           @ encodeRunes (slice (tokens ?e) 8 12) @ [dash]
           @ encodeRunes (slice (tokens ?e) 12 16) @ [dash]
           @ encodeRunes (slice (tokens ?e) 16 20) @ [dash]
           @ encodeRunes (slice (tokens ?e) 20 32)"
    and p: "dashRune \<notin> set (tokens ?e) \<longrightarrow>
      Split (String ?e) = map encodeRunes
        [slice (tokens ?e) 0 8, slice (tokens ?e) 8 12, slice (tokens ?e) 12 16,
         slice (tokens ?e) 16 20, slice (tokens ?e) 20 32]"
    by blast+
  from s have s': "String ?e = ascii ''ABABABAB-ABAB-ABAB-ABAB-ABABABABABAB''"
    by (simp only: g j)
  from p nd have "Split (String ?e) = map encodeRunes
        [slice (tokens ?e) 0 8, slice (tokens ?e) 8 12, slice (tokens ?e) 12 16,
         slice (tokens ?e) 16 20, slice (tokens ?e) 20 32]" by blast
  then have "Split (ascii ''ABABABAB-ABAB-ABAB-ABAB-ABABABABABAB'')
     = [ascii ''ABABABAB'', ascii ''ABAB'', ascii ''ABAB'', ascii ''ABAB'', ascii ''ABABABABABAB'']"
    by (simp only: s' g list.map)
  with s' show ?thesis by blast
qed

theorem String_layout_counterexample:
  "NewWithAlphabet [0x2D, 0x41] alternating
     = Some ((\<lparr>tokens = [0x2D, 0x41, 0x2D, 0x41, 0x2D, 0x41, 0x2D, 0x41, 0x2D, 0x41, 0x2D, 0x41,
          0x2D, 0x41, 0x2D, 0x41, 0x2D, 0x41, 0x2D, 0x41, 0x2D, 0x41, 0x2D, 0x41,
          0x2D, 0x41, 0x2D, 0x41, 0x2D, 0x41, 0x2D, 0x41]\<rparr>, None), alternating) \<and>
   String \<lparr>tokens = [0x2D, 0x41, 0x2D, 0x41, 0x2D, 0x41, 0x2D, 0x41, 0x2D, 0x41, 0x2D, 0x41,
          0x2D, 0x41, 0x2D, 0x41, 0x2D, 0x41, 0x2D, 0x41, 0x2D, 0x41, 0x2D, 0x41,
          0x2D, 0x41, 0x2D, 0x41, 0x2D, 0x41, 0x2D, 0x41]\<rparr>
     = ascii ''-A-A-A-A--A-A--A-A--A-A--A-A-A-A-A-A'' \<and>
   length (Split (ascii ''-A-A-A-A--A-A--A-A--A-A--A-A-A-A-A-A'')) = 21 \<and>
   hd (ascii ''-A-A-A-A--A-A--A-A--A-A--A-A-A-A-A-A'') = dash \<and>
   ParseWithAlphabet (ascii ''-A-A-A-A--A-A--A-A--A-A--A-A-A-A-A-A'') [0x2D, 0x41]
     = (zeroID, Some ErrInvalidFormat)"
proof -
  have "length [0x2D, 0x41 :: rune] \<le> 65536" by simp
  from NewWithAlphabet_refines [OF this, of alternating]
  have 1: "NewWithAlphabet [0x2D, 0x41] alternating
     = Some ((\<lparr>tokens = [0x2D, 0x41, 0x2D, 0x41, 0x2D, 0x41, 0x2D, 0x41, 0x2D, 0x41, 0x2D, 0x41,
          0x2D, 0x41, 0x2D, 0x41, 0x2D, 0x41, 0x2D, 0x41, 0x2D, 0x41, 0x2D, 0x41,
          0x2D, 0x41, 0x2D, 0x41, 0x2D, 0x41, 0x2D, 0x41]\<rparr>, None), alternating)"
    by (simp only: spec_new_dash_alternating)
  have 2: "String \<lparr>tokens = [0x2D, 0x41, 0x2D, 0x41, 0x2D, 0x41, 0x2D, 0x41, 0x2D, 0x41, 0x2D, 0x41,
          0x2D, 0x41, 0x2D, 0x41, 0x2D, 0x41, 0x2D, 0x41, 0x2D, 0x41, 0x2D, 0x41,
          0x2D, 0x41, 0x2D, 0x41, 0x2D, 0x41, 0x2D, 0x41]\<rparr>
     = ascii ''-A-A-A-A--A-A--A-A--A-A--A-A-A-A-A-A''"
    by code_simp
  have 3: "length (Split (ascii ''-A-A-A-A--A-A--A-A--A-A--A-A-A-A-A-A'')) = 21"
    by code_simp
  have 4: "hd (ascii ''-A-A-A-A--A-A--A-A--A-A--A-A-A-A-A-A'') = dash"
    by code_simp
  have 5: "ParseWithAlphabet (ascii ''-A-A-A-A--A-A--A-A--A-A--A-A-A-A-A-A'') [0x2D, 0x41]
     = (zeroID, Some ErrInvalidFormat)"
    by code_simp
  from 1 2 3 4 5 show ?thesis by blast
qed

subsection \<open>C7: a failing read of the random source\<close>




subsection \<open>C8: \<open>Tokens\<close> returns an independent copy\<close>

text \<open>
  C8. For every identifier \<open>a\<close> (an address of the store holding 32 tokens), \<open>Tokens\<close>
  returns a slice of 32 elements equal to the tokens of \<open>a\<close>, backed by an array that is
  not the array of \<open>a\<close>; no sequence of assignments through that slice changes the tokens
  of \<open>a\<close>, and afterwards \<open>Tokens\<close> and \<open>String\<close> of \<open>a\<close> give what they gave before.
\<close>

theorem Tokens_independent_copy:
  assumes "a < length st" "length (st ! a) = 32"
  shows "read_slice (fst (Tokens a st)) (snd (Tokens a st)) = st ! a \<and>
         length (read_slice (fst (Tokens a st)) (snd (Tokens a st))) = 32 \<and>
         ptr (fst (Tokens a st)) \<noteq> a \<and>
         snd (Tokens a st) ! a = st ! a \<and>
         (\<forall>st'. set_indices (fst (Tokens a st)) ws (snd (Tokens a st)) = Some st' \<longrightarrow>
            st' ! a = st ! a \<and>
            read_slice (fst (Tokens a st')) (snd (Tokens a st')) = st ! a \<and>
            String \<lparr>tokens = st' ! a\<rparr> = String \<lparr>tokens = st ! a\<rparr>)"
proof -
  note T = Tokens_eq [OF assms]
  have 1: "read_slice (fst (Tokens a st)) (snd (Tokens a st)) = st ! a"
    using assms by (simp add: T read_slice_def nth_append)
  have 3: "ptr (fst (Tokens a st)) \<noteq> a" using assms(1) by (simp add: T)
  have 4: "snd (Tokens a st) ! a = st ! a" using assms(1) by (simp add: T nth_append)
  have 5: "st' ! a = st ! a \<and>
      read_slice (fst (Tokens a st')) (snd (Tokens a st')) = st ! a \<and>
      String \<lparr>tokens = st' ! a\<rparr> = String \<lparr>tokens = st ! a\<rparr>"
    if w: "set_indices (fst (Tokens a st)) ws (snd (Tokens a st)) = Some st'" for st'
  proof -
    from set_indices_frame [OF w, of a] 3 4
    have f: "st' ! a = st ! a" "length st' = length (snd (Tokens a st))" by simp_all
    from f(2) assms(1) have a': "a < length st'" by (simp add: T)
    from f(1) assms(2) have l': "length (st' ! a) = 32" by simp
    have "read_slice (fst (Tokens a st')) (snd (Tokens a st')) = st' ! a"
      using a' l' by (simp add: Tokens_eq [OF a' l'] read_slice_def nth_append)
    with f(1) show ?thesis by simp
  qed
  from 1 3 4 5 assms(2) show ?thesis by simp
qed

theorem Tokens_independent_copy_witness:
  "read_slice (fst (Tokens 0 [replicate 32 0x41])) (snd (Tokens 0 [replicate 32 0x41]))
     = replicate 32 0x41 \<and>
   (\<exists>st'. set_indices (fst (Tokens 0 [replicate 32 0x41])) [(0, 0x5A), (31, 0x2D)]
            (snd (Tokens 0 [replicate 32 0x41])) = Some st' \<and>
          read_slice (fst (Tokens 0 [replicate 32 0x41])) st'
            = 0x5A # replicate 30 0x41 @ [0x2D] \<and>
          st' ! 0 = replicate 32 0x41 \<and>
          read_slice (fst (Tokens 0 st')) (snd (Tokens 0 st')) = replicate 32 0x41)"
proof -
  let ?st = "[replicate 32 (0x41 :: rune)]"
  have 1: "0 < length ?st" by simp
  have 2: "length (?st ! 0) = 32" by simp
  let ?st' = "the (set_indices (fst (Tokens 0 ?st)) [(0, 0x5A), (31, 0x2D)] (snd (Tokens 0 ?st)))"
  have w: "set_indices (fst (Tokens 0 ?st)) [(0, 0x5A), (31, 0x2D)] (snd (Tokens 0 ?st)) = Some ?st'"
    by (simp add: Tokens_eq set_index_def)
  have r: "read_slice (fst (Tokens 0 ?st)) ?st' = 0x5A # replicate 30 0x41 @ [0x2D]"
    by code_simp
  from Tokens_independent_copy [OF 1 2, of "[(0, 0x5A), (31, 0x2D)]"] w r
  show ?thesis by (intro conjI exI [of _ ?st']) simp_all
qed

subsection \<open>C9: writing the identifier of a parsed string\<close>

text \<open>
  C9, as amended. For every string \<open>s\<close> and every alphabet with at least 2 entries, if
  \<open>ParseWithAlphabet s alphabet\<close> succeeds with \<open>e\<close>, then \<open>String e\<close> equals \<open>s\<close>
  exactly when each of the five groups of \<open>s\<close> is well-formed UTF-8, which is always so
  when U+FFFD is not in the alphabet; and no parsed token is the delimiter \<open>'-'\<close>. It
  does not hold for every alphabet: \<open>[]rune(p)\<close> reads each ill-formed byte as U+FFFD,
  which an alphabet may contain, and \<open>String\<close> writes it back as three bytes.
\<close>

theorem String_after_Parse:
  assumes "2 \<le> length alphabet" "ParseWithAlphabet s alphabet = (e, None)"
  shows "(String e = s \<longleftrightarrow> (\<forall>p \<in> set (Split s). validUTF8 p)) \<and>
         (runeError \<notin> set alphabet \<longrightarrow> String e = s) \<and>
         dashRune \<notin> set (tokens e)"
proof -
  from assms(2) have p: "shape_ok s" "set (tokens_of s) \<subseteq> set alphabet" "tokens e = tokens_of s"
    by (simp_all add: Parse_success)
  note iff = String_Parse_eq [OF p(1,3)]
  have "String e = s" if "runeError \<notin> set alphabet"
  proof -
    have "validUTF8 q" if "q \<in> set (Split s)" for q
    proof (rule no_replacement_valid)
      from that have "set (runes q) \<subseteq> set (tokens_of s)" by (auto simp: tokens_of_def)
      with p(2) \<open>runeError \<notin> set alphabet\<close> show "runeError \<notin> set (runes q)" by blast
    qed
    with iff show ?thesis by blast
  qed
  moreover have "dashRune \<notin> set (tokens e)"
    using tokens_of_props [of dashRune s] p(3) by auto
  ultimately show ?thesis using iff by blast
qed

theorem String_after_Parse_witness:
  "String (fst (ParseWithAlphabet (String \<lparr>tokens = [0x1F600, 0x2615, 0x41, 0xE9, 0x1F600, 0x2615, 0x41, 0xE9,
       0x1F600, 0x2615, 0x41, 0xE9, 0x1F600, 0x2615, 0x41, 0xE9, 0x1F600, 0x2615, 0x41, 0xE9,
       0x1F600, 0x2615, 0x41, 0xE9, 0x1F600, 0x2615, 0x41, 0xE9, 0x1F600, 0x2615, 0x41, 0xE9]\<rparr>)
       [0x1F600, 0x2615, 0x41, 0xE9]))
     = String \<lparr>tokens = [0x1F600, 0x2615, 0x41, 0xE9, 0x1F600, 0x2615, 0x41, 0xE9,
       0x1F600, 0x2615, 0x41, 0xE9, 0x1F600, 0x2615, 0x41, 0xE9, 0x1F600, 0x2615, 0x41, 0xE9,
       0x1F600, 0x2615, 0x41, 0xE9, 0x1F600, 0x2615, 0x41, 0xE9, 0x1F600, 0x2615, 0x41, 0xE9]\<rparr>"
proof -
  let ?e = "\<lparr>tokens = [0x1F600, 0x2615, 0x41, 0xE9, 0x1F600, 0x2615, 0x41, 0xE9,
       0x1F600, 0x2615, 0x41, 0xE9, 0x1F600, 0x2615, 0x41, 0xE9, 0x1F600, 0x2615, 0x41, 0xE9,
       0x1F600, 0x2615, 0x41, 0xE9, 0x1F600, 0x2615, 0x41, 0xE9, 0x1F600, 0x2615, 0x41, 0xE9 :: rune]\<rparr>"
  let ?A = "[0x1F600, 0x2615, 0x41, 0xE9] :: rune list"
  have 1: "2 \<le> length ?A" by simp
  have 2: "ParseWithAlphabet (String ?e) ?A = (?e, None)" by code_simp
  have 3: "runeError \<notin> set ?A" by simp
  from 2 have p2: "ParseWithAlphabet (String ?e) ?A = (fst (ParseWithAlphabet (String ?e) ?A), None)"
    by simp
  from String_after_Parse [OF 1 p2] 3 show ?thesis by blast
qed

theorem String_after_Parse_counterexample:
  "ParseWithAlphabet
      (replicate 8 0xFF @ [dash] @ replicate 4 0xFF @ [dash] @ replicate 4 0xFF @ [dash]
         @ replicate 4 0xFF @ [dash] @ replicate 12 0xFF) [runeError, 0x41]
     = (\<lparr>tokens = replicate 32 runeError\<rparr>, None) \<and>
   String \<lparr>tokens = replicate 32 runeError\<rparr>
     \<noteq> replicate 8 0xFF @ [dash] @ replicate 4 0xFF @ [dash] @ replicate 4 0xFF @ [dash]
         @ replicate 4 0xFF @ [dash] @ replicate 12 0xFF"
  by code_simp

subsection \<open>C10: when the rejection loop returns\<close>

text \<open>
  C10, as amended. For every \<open>n\<close> with \<open>2 \<le> n \<le> 65536\<close> the threshold of
  \<open>cryptoRandIndex\<close> is \<open>65536 - 65536 mod n\<close>, it is at least \<open>n\<close>, and the draw 0 is
  accepted; the loop returns an index in \<open>[0, n)\<close> at the first accepted draw of the
  stream, and on a stream of draws that are all rejected it never returns. Beyond 65536
  (below \<open>2^32\<close>) the threshold is 0 and the loop returns on no stream of successful
  reads. Termination does not hold for every stream that supplies bytes.
\<close>

theorem sampler_termination:
  "(2 \<le> n \<and> n \<le> 65536 \<longrightarrow>
      uint (limit_of (word_of_int n)) = 65536 - 65536 mod n \<and>
      n \<le> uint (limit_of (word_of_int n)) \<and>
      accepts (word_of_int n) (ReadBytes 0 0) \<and>
      ((\<forall>q \<in> set pre. rejects (word_of_int n) q) \<longrightarrow> accepts (word_of_int n) r \<longrightarrow>
         (\<exists>idx. cryptoRandIndex n (pre @- r ## rest) = Some ((idx, None), rest)
                \<and> 0 \<le> idx \<and> idx < n)) \<and>
      ((\<forall>k. rejects (word_of_int n) (src !! k)) \<longrightarrow> cryptoRandIndex n src = None)) \<and>
   (65536 < n \<and> n < 4294967296 \<longrightarrow>
      limit_of (word_of_int n) = 0 \<and>
      ((\<forall>k. src !! k \<noteq> ReadFail) \<longrightarrow> cryptoRandIndex n src = None))"
proof (intro conjI impI)
  assume a: "2 \<le> n \<and> n \<le> 65536"
  then have n: "0 < n" "n \<le> 65536" "n < 4294967296" by simp_all
  have nz: "(word_of_int n :: 32 word) \<noteq> 0" using n(1,3) by (rule un_nonzero)
  show "uint (limit_of (word_of_int n)) = 65536 - 65536 mod n"
    "n \<le> uint (limit_of (word_of_int n))"
    using n(1,2) by (rule uint_limit_of)+
  show "accepts (word_of_int n) (ReadBytes 0 0)" using n(1,2) by (rule accepts_zero)
  {
    assume p: "\<forall>q \<in> set pre. rejects (word_of_int n) q" and r: "accepts (word_of_int n) r"
    have "cryptoRandIndex n (pre @- r ## rest) = cryptoRandIndex n (r ## rest)"
      using randLoop_skip [OF p] n(1) nz by (simp add: cryptoRandIndex_loop)
    with cryptoRandIndex_accept [OF n(1) nz r, of rest]
    show "\<exists>idx. cryptoRandIndex n (pre @- r ## rest) = Some ((idx, None), rest)
        \<and> 0 \<le> idx \<and> idx < n" by simp
  }
  {
    assume "\<forall>k. rejects (word_of_int n) (src !! k)"
    then show "cryptoRandIndex n src = None"
      using n(1) nz by (simp add: cryptoRandIndex_loop randLoop_never)
  }
next
  assume a: "65536 < n \<and> n < 4294967296"
  then have n: "65536 < n" "n < 4294967296" "0 < n" by simp_all
  have nz: "(word_of_int n :: 32 word) \<noteq> 0" using n(3,2) by (rule un_nonzero)
  show z: "limit_of (word_of_int n) = 0" using n(1,2) by (rule limit_of_beyond)
  {
    assume s: "\<forall>k. src !! k \<noteq> ReadFail"
    have "rejects (word_of_int n) (src !! k)" for k
      using s [rule_format, of k] by (cases "src !! k") (simp_all add: rejects_def z)
    then show "cryptoRandIndex n src = None"
      using n(3) nz by (simp add: cryptoRandIndex_loop randLoop_never)
  }
qed

theorem sampler_termination_witness:
  "(\<exists>idx. cryptoRandIndex 3 ([ReadBytes 0xFF 0xFF] @- ReadBytes 0 5 ## alternating)
            = Some ((idx, None), alternating) \<and> 0 \<le> idx \<and> idx < 3) \<and>
   cryptoRandIndex 65537 (sconst (ReadBytes 0 0)) = None"
proof -
  have 1: "2 \<le> (3::int) \<and> (3::int) \<le> 65536" by simp
  have 2: "\<forall>q \<in> set [ReadBytes 0xFF 0xFF]. rejects (word_of_int 3) q"
    by (simp add: rejects_def draw16_def limit_of_def)
  have 3: "accepts (word_of_int 3) (ReadBytes 0 5)"
    by (simp add: accepts_def draw16_def limit_of_def)
  have 4: "65536 < (65537::int) \<and> (65537::int) < 4294967296" by simp
  have 5: "\<forall>k. sconst (ReadBytes 0 0) !! k \<noteq> ReadFail" by simp
  from sampler_termination [of 3 "[ReadBytes 0xFF 0xFF]" "ReadBytes 0 5" alternating] 1 2 3
    sampler_termination [of 65537 _ _ _ "sconst (ReadBytes 0 0)"] 4 5
  show ?thesis by blast
qed

theorem sampler_termination_counterexample:
  "cryptoRandIndex 3 (sconst (ReadBytes 0xFF 0xFF)) = None"
proof -
  have "rejects 3 (ReadBytes 0xFF 0xFF)"
    by (simp add: rejects_def draw16_def limit_of_def)
  then have "\<forall>k. rejects 3 (sconst (ReadBytes 0xFF 0xFF) !! k)" by simp
  then have "randLoop 3 (limit_of 3) (sconst (ReadBytes 0xFF 0xFF)) = None"
    by (rule randLoop_never)
  then show ?thesis by (simp add: cryptoRandIndex_def limit_of_def)
qed

end
